theory Spec2Isabelle
  imports Complex_Main "HOL-Library.Sublist"
begin

section \<open>Strings of the program\<close>

text \<open>
  A Python \<^verbatim>\<open>str\<close> is modelled as a \<^typ>\<open>string\<close>: a list of characters, each a code
  point in the range 0..255 read with \<^term>\<open>of_char\<close> (Python's \<^verbatim>\<open>ord\<close>). The functions
  of \<^verbatim>\<open>src/voice_mcp/text_utils.py\<close> are translated statement by statement; the
  string methods and the three regular expressions they use are written out as list
  functions first.
\<close>

definition ord :: "char \<Rightarrow> nat" where
  "ord c = of_char c"

text \<open>
  \<^verbatim>\<open>str.isspace\<close> on one character, which is also what \<^verbatim>\<open>\s\<close> matches in a \<^verbatim>\<open>str\<close>
  pattern and what \<^verbatim>\<open>str.strip()\<close> removes: the code points 9..13, 28..31, 32, 0x85
  and 0xA0 (the white space of the first 256 code points).
\<close>

definition isspace :: "char \<Rightarrow> bool" where
  "isspace c =
     ((9 \<le> ord c \<and> ord c \<le> 13) \<or> (28 \<le> ord c \<and> ord c \<le> 31) \<or> ord c = 32
      \<or> ord c = 133 \<or> ord c = 160)"

text \<open>\<^verbatim>\<open>s.strip()\<close>: white space removed at both ends.\<close>

definition strip :: "string \<Rightarrow> string" where
  "strip s = rev (dropWhile isspace (rev (dropWhile isspace s)))"

text \<open>\<^verbatim>\<open>sub in s\<close>: \<^verbatim>\<open>sub\<close> occurs in \<^verbatim>\<open>s\<close> as a contiguous substring.\<close>

fun str_contains :: "string \<Rightarrow> string \<Rightarrow> bool" where
  "str_contains sub [] = (sub = [])"
| "str_contains sub (c # cs) = (prefix sub (c # cs) \<or> str_contains sub cs)"

text \<open>
  \<^verbatim>\<open>s.split(sep)\<close> for a one-character separator; \<open>cur\<close> is the piece being read.
  The result is never empty: \<^verbatim>\<open>"".split("\n") == [""]\<close>.
\<close>

fun split_from :: "char \<Rightarrow> string \<Rightarrow> string \<Rightarrow> string list" where
  "split_from sep cur [] = [cur]"
| "split_from sep cur (c # cs) =
     (if c = sep then cur # split_from sep [] cs else split_from sep (cur @ [c]) cs)"

definition split :: "char \<Rightarrow> string \<Rightarrow> string list" where
  "split sep s = split_from sep [] s"

text \<open>\<^verbatim>\<open>sep.join(parts)\<close>.\<close>

fun join :: "string \<Rightarrow> string list \<Rightarrow> string" where
  "join sep [] = []"
| "join sep [p] = p"
| "join sep (p # q # ps) = p @ sep @ join sep (q # ps)"

text \<open>
  \<^verbatim>\<open>s.replace(old, new)\<close>: the occurrences of \<^verbatim>\<open>old\<close> are found from the left and do
  not overlap. For an empty \<^verbatim>\<open>old\<close> Python puts \<^verbatim>\<open>new\<close> before every character and
  at the end.
\<close>

fun replace_scan :: "string \<Rightarrow> string \<Rightarrow> string \<Rightarrow> string" where
  "replace_scan old new [] = []"
| "replace_scan old new (c # cs) =
     (case old of
        [] \<Rightarrow> c # replace_scan old new cs
      | x # xs \<Rightarrow>
          if prefix old (c # cs) then new @ replace_scan old new (drop (length xs) cs)
          else c # replace_scan old new cs)"

definition replace :: "string \<Rightarrow> string \<Rightarrow> string \<Rightarrow> string" where
  "replace old new s =
     (if old = [] then new @ concat (map (\<lambda>c. c # new) s) else replace_scan old new s)"

subsection \<open>The regular expressions\<close>

text \<open>
  \<^verbatim>\<open>re.sub\<close> scans from the left; where the pattern matches, the match is replaced
  and the scan goes on behind it, elsewhere the character is kept. None of the three
  patterns matches the empty string. In each pattern a negated class is followed by
  the very character it excludes, so the greedy run is the longest one and no
  backtracking can find another match.
\<close>

text \<open>\<^verbatim>\<open>re.sub(r'[\x00-\x1f\x7f-\x9f]', '', s)\<close>.\<close>

definition is_control :: "char \<Rightarrow> bool" where
  "is_control c = (ord c \<le> 31 \<or> (127 \<le> ord c \<and> ord c \<le> 159))"

definition remove_control :: "string \<Rightarrow> string" where
  "remove_control s = filter (\<lambda>c. \<not> is_control c) s"

text \<open>
  One match of \<^verbatim>\<open><[^>]+>\<close> at the head of the string: the text behind the match,
  or \<open>None\<close>.
\<close>

fun match_tag :: "string \<Rightarrow> string option" where
  "match_tag [] = None"
| "match_tag (c # cs) =
     (if c = CHR ''<'' \<and> takeWhile (\<lambda>d. d \<noteq> CHR ''>'') cs \<noteq> []
         \<and> dropWhile (\<lambda>d. d \<noteq> CHR ''>'') cs \<noteq> []
      then Some (tl (dropWhile (\<lambda>d. d \<noteq> CHR ''>'') cs))
      else None)"

lemma match_tag_shorter: "match_tag s = Some r \<Longrightarrow> length r < length s"
proof (cases s)
  case Nil
  assume "match_tag s = Some r"
  with Nil show ?thesis by simp
next
  case (Cons c cs)
  assume m: "match_tag s = Some r"
  have "length (dropWhile (\<lambda>d. d \<noteq> CHR ''>'') cs) \<le> length cs"
    by (rule length_dropWhile_le)
  with m Cons show ?thesis by (auto split: if_splits)
qed

text \<open>\<^verbatim>\<open>re.sub(r'<[^>]+>', '', s)\<close>.\<close>

function remove_tags :: "string \<Rightarrow> string" where
  "remove_tags [] = []"
| "remove_tags (c # cs) =
     (case match_tag (c # cs) of
        Some r \<Rightarrow> remove_tags r
      | None \<Rightarrow> c # remove_tags cs)"
  by pat_completeness auto
termination
  by (relation "measure length") (auto dest!: match_tag_shorter simp del: match_tag.simps)

text \<open>\<^verbatim>\<open>re.sub(r'\s+', ' ', s)\<close>: every run of white space becomes one space.\<close>

function normalize_whitespace :: "string \<Rightarrow> string" where
  "normalize_whitespace [] = []"
| "normalize_whitespace (c # cs) =
     (if isspace c then CHR '' '' # normalize_whitespace (dropWhile isspace cs)
      else c # normalize_whitespace cs)"
  by pat_completeness auto
termination
  by (relation "measure length") (auto simp: less_Suc_eq_le length_dropWhile_le)

text \<open>
  One match of \<^verbatim>\<open>\[([^\]]+)\]\([^\)]+\)\<close> at the head of the string: group 1 and the
  text behind the match, or \<open>None\<close>.
\<close>

fun match_link :: "string \<Rightarrow> (string \<times> string) option" where
  "match_link [] = None"
| "match_link (c # cs) =
     (if c = CHR ''['' \<and> takeWhile (\<lambda>d. d \<noteq> CHR '']'') cs \<noteq> [] then
        (case dropWhile (\<lambda>d. d \<noteq> CHR '']'') cs of
           _ # b # r \<Rightarrow>
             if b = CHR ''('' \<and> takeWhile (\<lambda>d. d \<noteq> CHR '')'') r \<noteq> []
                \<and> dropWhile (\<lambda>d. d \<noteq> CHR '')'') r \<noteq> []
             then Some (takeWhile (\<lambda>d. d \<noteq> CHR '']'') cs,
                        tl (dropWhile (\<lambda>d. d \<noteq> CHR '')'') r))
             else None
         | _ \<Rightarrow> None)
      else None)"

lemma match_link_shorter: "match_link s = Some (g, r) \<Longrightarrow> length r < length s"
proof (cases s)
  case Nil
  assume "match_link s = Some (g, r)"
  with Nil show ?thesis by simp
next
  case (Cons c cs)
  assume m: "match_link s = Some (g, r)"
  obtain a b t where d: "dropWhile (\<lambda>d. d \<noteq> CHR '']'') cs = a # b # t"
    and r: "r = tl (dropWhile (\<lambda>d. d \<noteq> CHR '')'') t)"
    using m Cons by (auto split: if_splits list.splits)
  have "length (a # b # t) \<le> length cs"
    unfolding d [symmetric] by (rule length_dropWhile_le)
  moreover have "length (dropWhile (\<lambda>d. d \<noteq> CHR '')'') t) \<le> length t"
    by (rule length_dropWhile_le)
  ultimately show ?thesis using Cons r by simp
qed

text \<open>\<^verbatim>\<open>re.sub(r'\[([^\]]+)\]\([^\)]+\)', r'\1', s)\<close>.\<close>

function sub_links :: "string \<Rightarrow> string" where
  "sub_links [] = []"
| "sub_links (c # cs) =
     (case match_link (c # cs) of
        Some (g, r) \<Rightarrow> g @ sub_links r
      | None \<Rightarrow> c # sub_links cs)"
  by pat_completeness auto
termination
  by (relation "measure length") (auto dest!: match_link_shorter simp del: match_link.simps)

section \<open>text\_utils.py\<close>

subsection \<open>clean\_text\_for\_speech\<close>

text \<open>The dictionary \<^verbatim>\<open>replacements\<close>, in insertion order, which is the order of the loop.\<close>

definition replacements :: "(string \<times> string) list" where
  "replacements =
     [(''CLI'', ''command line''), (''API'', ''A P I''), (''JSON'', ''J SON''),
      (''HTTP'', ''H T T P''), (''URL'', ''U R L''), (''SSH'', ''S S H''),
      (''CPU'', ''C P U''), (''GPU'', ''G P U''), (''RAM'', ''R A M'')]"

text \<open>\<^verbatim>\<open>for term, replacement in replacements.items(): text = text.replace(term, replacement)\<close>.\<close>

fun replace_terms :: "(string \<times> string) list \<Rightarrow> string \<Rightarrow> string" where
  "replace_terms [] s = s"
| "replace_terms ((old, new) # rs) s = replace_terms rs (replace old new s)"

text \<open>The five \<^verbatim>\<open>text.replace(.., "")\<close> statements at the head of the function.\<close>

definition remove_formatting :: "string \<Rightarrow> string" where
  "remove_formatting s =
     replace ''```'' [] (replace ''`'' [] (replace ''#'' [] (replace ''*'' [] (replace ''**'' [] s))))"

definition truncation_notice :: string where
  "truncation_notice = ''... The response was truncated for speech.''"

text \<open>\<^verbatim>\<open>if len(text) > 500: text = text[:500] + "..."\<close>.\<close>

definition limit_length :: "string \<Rightarrow> string" where
  "limit_length s = (if length s > 500 then take 500 s @ truncation_notice else s)"

definition clean_text_for_speech :: "string \<Rightarrow> string" where
  "clean_text_for_speech s =
     limit_length (replace_terms replacements (sub_links (remove_formatting s)))"

subsection \<open>clean\_mcphost\_response\<close>

definition skip_patterns :: "string list" where
  "skip_patterns =
     [''DEBUG'', ''INFO'', ''2025/'', ''creating message'', ''sending messages'',
      [CHR 0x1B], ''ESC'', ''command:'', ''args:'', ''buffer'', ''before'', ''after'']"

text \<open>\<^verbatim>\<open>any(skip in line for skip in skip_patterns)\<close>.\<close>

definition has_skip_pattern :: "string \<Rightarrow> bool" where
  "has_skip_pattern line = list_ex (\<lambda>skip. str_contains skip line) skip_patterns"

text \<open>
  The loop over the lines: a line with a denylisted substring, a blank line and a
  line of which more than half the characters have a code point below 32 are
  skipped; the others are appended stripped.
\<close>

fun cleaned_lines :: "string list \<Rightarrow> string list" where
  "cleaned_lines [] = []"
| "cleaned_lines (line # lines) =
     (if has_skip_pattern line then cleaned_lines lines
      else if strip line = [] then cleaned_lines lines
      else if length (strip line) > 0
              \<and> length (filter (\<lambda>c. ord c < 32) line) > length line div 2
           then cleaned_lines lines
      else strip line # cleaned_lines lines)"

text \<open>
  The argument is \<open>None\<close> for Python's \<^verbatim>\<open>None\<close>; \<^verbatim>\<open>not response\<close> holds for \<^verbatim>\<open>None\<close>
  and for the empty string.
\<close>

definition clean_mcphost_response :: "string option \<Rightarrow> string" where
  "clean_mcphost_response response =
     (case response of
        None \<Rightarrow> []
      | Some r \<Rightarrow>
          if r = [] then []
          else strip (normalize_whitespace (remove_tags (remove_control
                 (join '' '' (cleaned_lines (split (CHR 0x0A) r)))))))"

subsection \<open>Shapes of a cleaned response\<close>

text \<open>
  Two predicates for stating what the cleaner's output looks like: every white space
  character is a single space with no white space behind it, and \<^verbatim>\<open><[^>]+>\<close> matches
  nowhere in the string.
\<close>

fun spaces_normal :: "string \<Rightarrow> bool" where
  "spaces_normal [] = True"
| "spaces_normal (c # cs) =
     ((if isspace c then c = CHR '' '' \<and> (cs = [] \<or> \<not> isspace (hd cs)) else True)
      \<and> spaces_normal cs)"

fun tag_free :: "string \<Rightarrow> bool" where
  "tag_free [] = True"
| "tag_free (c # cs) = (match_tag (c # cs) = None \<and> tag_free cs)"

subsection \<open>Shapes of cleaned speech text\<close>

text \<open>
  \<^verbatim>\<open>re.search\<close> of the link pattern: it matches somewhere in the string.
\<close>

fun has_link :: "string \<Rightarrow> bool" where
  "has_link [] = False"
| "has_link (c # cs) = (match_link (c # cs) \<noteq> None \<or> has_link cs)"

text \<open>The characters that the first five replacements delete.\<close>

definition formatting :: "char set" where
  "formatting = {CHR ''*'', CHR ''#'', CHR 0x60}"

text \<open>The number of closing brackets in a string.\<close>

definition closers :: "string \<Rightarrow> nat" where
  "closers s = length (filter (\<lambda>c. c = CHR '']'') s)"

text \<open>
  Two checks on a replacement \<^verbatim>\<open>old\<close> to \<^verbatim>\<open>new\<close>, both computed: \<^verbatim>\<open>new\<close> holds a
  character foreign to the word \<open>u\<close>, does not contain \<open>u\<close>, and what it shares with
  \<open>u\<close> at its two ends it shares with \<^verbatim>\<open>old\<close>; the second check is the first for
  \<open>u = old\<close>, sharpened so that no new occurrence of \<^verbatim>\<open>old\<close> can arise.
\<close>

definition keeps_ok :: "string \<Rightarrow> string \<Rightarrow> string \<Rightarrow> bool" where
  "keeps_ok u old new =
     ((\<exists>c \<in> set new. c \<notin> set u) \<and> \<not> sublist u new
      \<and> prefix (takeWhile (\<lambda>c. c \<in> set u) new) old
      \<and> suffix (rev (takeWhile (\<lambda>c. c \<in> set u) (rev new))) old \<and> old \<noteq> [])"

definition removes_ok :: "string \<Rightarrow> string \<Rightarrow> bool" where
  "removes_ok old new =
     ((\<exists>c \<in> set new. c \<notin> set old) \<and> \<not> sublist old new
      \<and> prefix (takeWhile (\<lambda>c. c \<in> set old) new) (butlast old)
      \<and> hd old \<notin> set (takeWhile (\<lambda>c. c \<in> set old) (rev new)) \<and> old \<noteq> [])"

section \<open>voice\_mcphost.py: the exit check of the interactive loop\<close>

text \<open>
  \<^verbatim>\<open>str.lower()\<close> on one character of the first 256 code points: the letters A..Z and
  the capital letters 0xC0..0xDE (but not the multiplication sign 0xD7) move up by 32.
\<close>

definition lower_char :: "char \<Rightarrow> char" where
  "lower_char c =
     (if (65 \<le> ord c \<and> ord c \<le> 90) \<or> (192 \<le> ord c \<and> ord c \<le> 222 \<and> ord c \<noteq> 215)
      then char_of (ord c + 32) else c)"

definition lower :: "string \<Rightarrow> string" where
  "lower s = map lower_char s"

definition exit_commands :: "string list" where
  "exit_commands = [''exit'', ''quit'', ''goodbye'', ''stop'', ''bye'']"

text \<open>
  What one round of \<^verbatim>\<open>run_interactive\<close> does with the value of
  \<^verbatim>\<open>record_and_transcribe()\<close> (\<open>None\<close> or a transcript): go round again without
  dispatching, leave the loop after the goodbye message, or send the transcript to
  MCPHost.
\<close>

datatype round = Try_again | Leave | Dispatch string

definition interactive_round :: "string option \<Rightarrow> round" where
  "interactive_round user_input =
     (case user_input of
        None \<Rightarrow> Try_again
      | Some s \<Rightarrow>
          if s = [] then Try_again
          else if lower s \<in> set exit_commands then Leave
          else Dispatch s)"

section \<open>mcphost\_runner.py\<close>

subsection \<open>Exceptions, the child process and the calls made on it\<close>

text \<open>
  An exception is its class, as far as the handlers of the module tell classes apart,
  and its message \<^verbatim>\<open>str(e)\<close>. \<^verbatim>\<open>except ImportError\<close> catches the first kind,
  \<^verbatim>\<open>except Exception\<close> the first two, a bare \<^verbatim>\<open>except:\<close> all three (the third stands
  for \<^verbatim>\<open>KeyboardInterrupt\<close> and \<^verbatim>\<open>SystemExit\<close>).
\<close>

datatype exn_class = ImportError | OtherException | Interrupt

datatype exn = Exn exn_class string

fun isinstance_Exception :: "exn \<Rightarrow> bool" where
  "isinstance_Exception (Exn k m) = (k \<noteq> Interrupt)"


definition anything :: "exn \<Rightarrow> bool" where
  "anything e = True"

fun str_exn :: "exn \<Rightarrow> string" where
  "str_exn (Exn k m) = m"

datatype pipe = Stdout | Stderr

text \<open>
  The calls the runner makes on the operating system and on the child, with their
  arguments; times are in seconds. Console output (\<^verbatim>\<open>print\<close>) is left out and taken
  not to fail.
\<close>

datatype call =
    Popen "string list"
  | StdinWrite string
  | StdinFlush
  | TimeTime
  | Poll
  | Select pipe real
  | Readline pipe
  | Sleep real
  | Terminate
  | Wait real
  | Kill

text \<open>
  The world outside the program: what each call answers, given the calls made so far.
  \<open>fails\<close> answers the calls whose value the program does not use (an exception or
  nothing), \<open>clock\<close> is \<^verbatim>\<open>time.time()\<close>, \<open>poll_result\<close> the return code (\<open>None\<close>
  while the child runs), \<open>select_ready\<close> whether \<^verbatim>\<open>select\<close> found the pipe readable
  within its timeout, \<open>readline_result\<close> the line read.
\<close>

record env =
  win32 :: bool
  fails :: "call list \<Rightarrow> call \<Rightarrow> exn option"
  clock :: "call list \<Rightarrow> real"
  poll_result :: "call list \<Rightarrow> exn + int option"
  select_ready :: "call list \<Rightarrow> pipe \<Rightarrow> exn + bool"
  readline_result :: "call list \<Rightarrow> pipe \<Rightarrow> exn + string"

text \<open>
  The state of one call of \<^verbatim>\<open>run_mcphost_basic\<close>: the calls made so far and the two
  local accumulators, which an exception handler sees as the body left them.
\<close>

record frame =
  trace :: "call list"
  all_output :: string
  stderr_output :: string

definition start_frame :: frame where
  "start_frame = \<lparr>trace = [], all_output = [], stderr_output = []\<rparr>"

text \<open>
  A statement maps the state to a raised exception (\<open>Inl\<close>) or a value (\<open>Inr\<close>) and
  the new state; \<open>None\<close> is a loop that has not ended within its fuel.
\<close>

type_synonym 'a io = "frame \<Rightarrow> ((exn + 'a) \<times> frame) option"

definition ret :: "'a \<Rightarrow> 'a io" where
  "ret x s = Some (Inr x, s)"

definition bind :: "'a io \<Rightarrow> ('a \<Rightarrow> 'b io) \<Rightarrow> 'b io" where
  "bind m f s =
     (case m s of
        None \<Rightarrow> None
      | Some (Inl e, s') \<Rightarrow> Some (Inl e, s')
      | Some (Inr x, s') \<Rightarrow> f x s')"

text \<open>The \<^verbatim>\<open>except\<close> clauses of one \<^verbatim>\<open>try\<close>, tried in order: the first that matches handles.\<close>

fun handle :: "((exn \<Rightarrow> bool) \<times> (exn \<Rightarrow> 'a io)) list \<Rightarrow> exn \<Rightarrow> 'a io" where
  "handle [] e s = Some (Inl e, s)"
| "handle ((catches, handler) # clauses) e s =
     (if catches e then handler e s else handle clauses e s)"

definition try_except :: "'a io \<Rightarrow> ((exn \<Rightarrow> bool) \<times> (exn \<Rightarrow> 'a io)) list \<Rightarrow> 'a io" where
  "try_except body clauses s =
     (case body s of
        None \<Rightarrow> None
      | Some (Inl e, s') \<Rightarrow> handle clauses e s'
      | Some (Inr x, s') \<Rightarrow> Some (Inr x, s'))"

definition logged :: "call \<Rightarrow> frame \<Rightarrow> frame" where
  "logged c s = s\<lparr>trace := trace s @ [c]\<rparr>"

definition perform :: "env \<Rightarrow> call \<Rightarrow> unit io" where
  "perform w c s =
     Some (case fails w (trace s) c of None \<Rightarrow> Inr () | Some e \<Rightarrow> Inl e, logged c s)"

definition time_time :: "env \<Rightarrow> real io" where
  "time_time w s = Some (Inr (clock w (trace s)), logged TimeTime s)"

definition poll :: "env \<Rightarrow> int option io" where
  "poll w s = Some (poll_result w (trace s), logged Poll s)"

definition select :: "env \<Rightarrow> pipe \<Rightarrow> real \<Rightarrow> bool io" where
  "select w p t s = Some (select_ready w (trace s) p, logged (Select p t) s)"

definition readline :: "env \<Rightarrow> pipe \<Rightarrow> string io" where
  "readline w p s = Some (readline_result w (trace s) p, logged (Readline p) s)"

definition add_all_output :: "string \<Rightarrow> unit io" where
  "add_all_output l s = Some (Inr (), s\<lparr>all_output := all_output s @ l\<rparr>)"

definition add_stderr_output :: "string \<Rightarrow> unit io" where
  "add_stderr_output l s = Some (Inr (), s\<lparr>stderr_output := stderr_output s @ l\<rparr>)"

subsection \<open>The runner\<close>

record runner =
  model :: string
  config_path :: string
  response_timeout :: int

text \<open>\<^verbatim>\<open>_read_line_with_timeout(pipe, timeout)\<close>: the line, or \<open>None\<close>.\<close>

definition read_line_with_timeout :: "env \<Rightarrow> pipe \<Rightarrow> real \<Rightarrow> string option io" where
  "read_line_with_timeout w p t =
     (if win32 w then
        try_except (bind (readline w p) (\<lambda>l. ret (Some l))) [(anything, \<lambda>e. ret None)]
      else
        bind (select w p t) (\<lambda>ready.
          if ready then
            try_except (bind (readline w p) (\<lambda>l. ret (Some l))) [(anything, \<lambda>e. ret None)]
          else ret None))"

text \<open>
  The body of the polling loop, lines 111 to 128: \<open>True\<close> when the loop goes on,
  \<open>False\<close> at a \<^verbatim>\<open>break\<close>. \<open>stderr_wait\<close> is the timeout of the read of stderr, the
  one constant in which the copy of the function in \<^verbatim>\<open>test.py\<close> differs.
\<close>

definition loop_body :: "env \<Rightarrow> real \<Rightarrow> bool io" where
  "loop_body w stderr_wait =
     try_except
       (bind (poll w) (\<lambda>rc.
          if rc \<noteq> None then ret False
          else
            bind (read_line_with_timeout w Stdout 1) (\<lambda>line.
            bind (case line of None \<Rightarrow> ret () | Some l \<Rightarrow> add_all_output l) (\<lambda>_.
            bind (read_line_with_timeout w Stderr stderr_wait) (\<lambda>stderr_line.
            bind (case stderr_line of None \<Rightarrow> ret () | Some l \<Rightarrow> add_stderr_output l) (\<lambda>_.
            ret True))))))
       [(isinstance_Exception, \<lambda>e. ret False)]"

text \<open>
  \<^verbatim>\<open>while time.time() - start_time < self.response_timeout\<close>, with fuel: the number
  of rounds the loop may still make.
\<close>

fun poll_loop :: "env \<Rightarrow> real \<Rightarrow> int \<Rightarrow> real \<Rightarrow> nat \<Rightarrow> unit io" where
  "poll_loop w stderr_wait timeout start_time 0 = (\<lambda>s. None)"
| "poll_loop w stderr_wait timeout start_time (Suc fuel) =
     bind (time_time w) (\<lambda>now.
       if now - start_time < real_of_int timeout then
         bind (loop_body w stderr_wait) (\<lambda>go_on.
           if go_on then poll_loop w stderr_wait timeout start_time fuel else ret ())
       else ret ())"

definition command :: "runner \<Rightarrow> string list" where
  "command self = [''mcphost'', ''-m'', model self, ''--config'', config_path self]"

definition result_text :: "unit \<Rightarrow> string io" where
  "result_text u s =
     Some (Inr (''STDOUT:\<newline>'' @ all_output s @ ''\<newline>\<newline>STDERR:\<newline>''
                @ stderr_output s), s)"

text \<open>\<^verbatim>\<open>run_mcphost_basic\<close>, lines 80 to 149, with the timeout of the stderr read as a parameter.\<close>

definition run_basic :: "real \<Rightarrow> env \<Rightarrow> runner \<Rightarrow> nat \<Rightarrow> string \<Rightarrow> string io" where
  "run_basic stderr_wait w self fuel prompt =
     try_except
       (bind (perform w (Popen (command self))) (\<lambda>_.
        bind (perform w (StdinWrite (prompt @ ''\<newline>''))) (\<lambda>_.
        bind (perform w StdinFlush) (\<lambda>_.
        bind (time_time w) (\<lambda>start_time.
        bind (poll_loop w stderr_wait (response_timeout self) start_time fuel) (\<lambda>_.
        bind (try_except
                (bind (perform w (StdinWrite ''quit\<newline>'')) (\<lambda>_.
                 bind (perform w StdinFlush) (\<lambda>_.
                 perform w (Sleep (1 / 2)))))
                [(anything, \<lambda>e. ret ())]) (\<lambda>_.
        bind (try_except
                (bind (perform w Terminate) (\<lambda>_. perform w (Wait 2)))
                [(anything, \<lambda>e. perform w Kill)])
          result_text)))))))
       [(isinstance_Exception, \<lambda>e. ret (''Error running MCPHost: '' @ str_exn e))]"

text \<open>
  The stderr read waits 1.0 seconds in \<^verbatim>\<open>mcphost_runner.py\<close> (line 122) and 0.1
  seconds in \<^verbatim>\<open>test.py\<close> (line 360).
\<close>

definition run_mcphost_basic :: "env \<Rightarrow> runner \<Rightarrow> nat \<Rightarrow> string \<Rightarrow> string io" where
  "run_mcphost_basic = run_basic 1"

definition test_run_mcphost_basic :: "env \<Rightarrow> runner \<Rightarrow> nat \<Rightarrow> string \<Rightarrow> string io" where
  "test_run_mcphost_basic = run_basic (1 / 10)"



subsection \<open>Sample runners, environments and strategies\<close>

text \<open>The runner that \<^verbatim>\<open>main.py\<close> builds when it is started without arguments.\<close>

definition default_runner :: runner where
  "default_runner = \<lparr>model = ''ollama:qwen3:8b'', config_path = ''/home/nihal/config.json'',
                      response_timeout = 30\<rparr>"

text \<open>
  A child that starts, never exits and never writes anything, on Linux; every call takes
  one second of the clock.
\<close>

definition quiet_env :: env where
  "quiet_env =
     \<lparr>win32 = False, fails = (\<lambda>h c. None), clock = (\<lambda>h. real (length h)),
      poll_result = (\<lambda>h. Inr None), select_ready = (\<lambda>h p. Inr False),
      readline_result = (\<lambda>h p. Inr [])\<rparr>"


text \<open>
  A child that starts and keeps running but has closed its standard input: every write
  to it raises \<^verbatim>\<open>BrokenPipeError\<close>.
\<close>

definition broken_pipe_env :: env where
  "broken_pipe_env =
     quiet_env\<lparr>fails := (\<lambda>h c. case c of
         StdinWrite x \<Rightarrow> Some (Exn OtherException ''[Errno 32] Broken pipe'')
       | _ \<Rightarrow> None)\<rparr>"



section \<open>Properties of the response cleaner\<close>

subsection \<open>Which characters each step can produce\<close>

lemma set_strip: "set (strip s) \<subseteq> set s"
proof -
  have "set (strip s) \<subseteq> set (dropWhile isspace s)"
    unfolding strip_def using set_dropWhileD [of _ isspace "rev (dropWhile isspace s)"] by auto
  also have "\<dots> \<subseteq> set s" using set_dropWhileD [of _ isspace s] by auto
  finally show ?thesis .
qed

lemma match_tag_suffix: "match_tag s = Some r \<Longrightarrow> suffix r s"
proof (cases s)
  case Nil
  assume "match_tag s = Some r"
  with Nil show ?thesis by simp
next
  case (Cons c cs)
  assume "match_tag s = Some r"
  with Cons have r: "r = tl (dropWhile (\<lambda>d. d \<noteq> CHR ''>'') cs)"
    by (auto split: if_splits)
  have "suffix r (dropWhile (\<lambda>d. d \<noteq> CHR ''>'') cs)"
    unfolding r by (rule suffix_tl)
  also have "suffix \<dots> cs" by (rule suffix_dropWhile)
  also have "suffix cs s" unfolding Cons by (rule suffix_ConsI) simp
  finally show ?thesis .
qed

lemma set_remove_tags: "set (remove_tags s) \<subseteq> set s"
proof (induction s rule: remove_tags.induct)
  case 1
  show ?case by simp
next
  case (2 c cs)
  show ?case
  proof (cases "match_tag (c # cs)")
    case None
    with 2 show ?thesis by auto
  next
    case (Some r)
    from match_tag_suffix [OF Some] have "set r \<subseteq> set (c # cs)" by (rule set_mono_suffix)
    with 2 Some show ?thesis by (auto simp del: match_tag.simps)
  qed
qed

lemma set_normalize_whitespace: "set (normalize_whitespace s) \<subseteq> insert (CHR '' '') (set s)"
proof (induction s rule: normalize_whitespace.induct)
  case 1
  show ?case by simp
next
  case (2 c cs)
  have "set (dropWhile isspace cs) \<subseteq> set cs" using set_dropWhileD [of _ isspace cs] by auto
  with 2 show ?case by auto
qed

lemma set_remove_control: "c \<in> set (remove_control s) \<Longrightarrow> \<not> is_control c"
  by (simp add: remove_control_def)

lemma ord_space: "ord (CHR '' '') = 32"
  by (simp add: ord_def)

subsection \<open>Replacements that find nothing\<close>

lemma str_contains_sublist: "str_contains sub s \<longleftrightarrow> sublist sub s"
  by (induction s) (auto simp: sublist_Cons_right)

lemma replace_scan_id: "\<not> sublist old s \<Longrightarrow> replace_scan old new s = s"
proof (induction s)
  case Nil
  show ?case by simp
next
  case (Cons c cs)
  from Cons.prems have a: "\<not> prefix old (c # cs)" and b: "\<not> sublist old cs"
    by (auto simp: sublist_Cons_right)
  from b Cons.IH have "replace_scan old new cs = cs" by simp
  with a show ?case by (cases old) auto
qed

lemma replace_id: "old \<noteq> [] \<Longrightarrow> \<not> sublist old s \<Longrightarrow> replace old new s = s"
  by (simp add: replace_def replace_scan_id)

lemma replace_absent: "c \<in> set old \<Longrightarrow> c \<notin> set s \<Longrightarrow> replace old new s = s"
proof -
  assume c: "c \<in> set old" and n: "c \<notin> set s"
  then have "old \<noteq> []" by auto
  moreover have "\<not> sublist old s" using c n set_mono_sublist by fastforce
  ultimately show ?thesis by (rule replace_id)
qed

lemma match_link_bracket: "match_link s = Some (g, r) \<Longrightarrow> CHR ''['' \<in> set s"
  by (cases s) (auto split: if_splits)

lemma sub_links_absent: "CHR ''['' \<notin> set s \<Longrightarrow> sub_links s = s"
proof (induction s)
  case Nil
  show ?case by simp
next
  case (Cons c cs)
  have "match_link (c # cs) = None"
  proof (cases "match_link (c # cs)")
    case None
    then show ?thesis .
  next
    case (Some p)
    then obtain g r where "match_link (c # cs) = Some (g, r)" by (cases p) auto
    from match_link_bracket [OF this] Cons.prems show ?thesis by simp
  qed
  with Cons show ?case by (simp del: match_link.simps)
qed

lemma replace_terms_absent:
  "\<forall>(old, new) \<in> set rs. \<exists>c \<in> set old. c \<notin> set s \<Longrightarrow> replace_terms rs s = s"
proof (induction rs)
  case Nil
  show ?case by simp
next
  case (Cons p rs)
  obtain old new where p: "p = (old, new)" by (cases p)
  from Cons.prems p obtain c where "c \<in> set old" "c \<notin> set s" by auto
  then have "replace old new s = s" by (rule replace_absent)
  with Cons p show ?case by simp
qed

lemma clean_text_for_speech_plain:
  assumes "set s \<subseteq> {CHR ''a''}"
  shows "replace_terms replacements (sub_links (remove_formatting s)) = s"
proof -
  have n: "\<And>c. c \<noteq> CHR ''a'' \<Longrightarrow> c \<notin> set s" using assms by auto
  have 1: "remove_formatting s = s"
    unfolding remove_formatting_def
    by (simp add: replace_absent [of "CHR ''*''"] replace_absent [of "CHR ''#''"]
        replace_absent [of "CHR 0x60"] n)
  have 2: "sub_links s = s" by (rule sub_links_absent) (simp add: n)
  have 3: "replace_terms replacements s = s"
    by (rule replace_terms_absent) (simp add: replacements_def n)
  from 1 2 3 show ?thesis by simp
qed


subsection \<open>Stripping twice\<close>

lemma dropWhile_fixed: "xs = [] \<or> \<not> P (hd xs) \<Longrightarrow> dropWhile P xs = xs"
  by (cases xs) auto

lemma dropWhile_head: "dropWhile P xs = [] \<or> \<not> P (hd (dropWhile P xs))"
  using hd_dropWhile [of P xs] by blast

lemma strip_parts: "\<exists>a b. s = a @ strip s @ b"
proof -
  define u where "u = dropWhile isspace s"
  have "takeWhile isspace (rev u) @ dropWhile isspace (rev u) = rev u"
    by (rule takeWhile_dropWhile_id)
  then have "rev (takeWhile isspace (rev u) @ dropWhile isspace (rev u)) = rev (rev u)"
    by (rule arg_cong)
  then have "rev (dropWhile isspace (rev u)) @ rev (takeWhile isspace (rev u)) = u"
    by (simp only: rev_append rev_rev_ident)
  then have "u = strip s @ rev (takeWhile isspace (rev u))"
    by (simp only: strip_def u_def)
  moreover have "s = takeWhile isspace s @ u" by (simp add: u_def)
  ultimately show ?thesis by metis
qed

lemma strip_ends:
  "strip s = [] \<or> (\<not> isspace (hd (strip s)) \<and> \<not> isspace (last (strip s)))"
proof (cases "strip s = []")
  case True
  then show ?thesis by simp
next
  case False
  define u where "u = dropWhile isspace s"
  define z where "z = dropWhile isspace (rev u)"
  have s: "strip s = rev z" by (simp add: strip_def u_def z_def)
  with False have z: "z \<noteq> []" by simp
  then have "\<not> isspace (hd z)" unfolding z_def using dropWhile_head [of isspace "rev u"] by blast
  then have l: "\<not> isspace (last (strip s))" using z s by (simp add: last_rev)
  have "suffix z (rev u)" unfolding z_def by (rule suffix_dropWhile)
  then obtain t where "rev u = t @ z" by (auto simp: suffix_def)
  then have "rev (rev u) = rev (t @ z)" by simp
  then have u: "u = rev z @ rev t" by simp
  with z have "u \<noteq> []" by simp
  then have "\<not> isspace (hd u)" unfolding u_def using dropWhile_head [of isspace s] by blast
  moreover have "hd u = hd (rev z)" using u z by simp
  ultimately have "\<not> isspace (hd (strip s))" using s by simp
  with l show ?thesis by blast
qed

lemma strip_fixed:
  assumes "s = [] \<or> (\<not> isspace (hd s) \<and> \<not> isspace (last s))"
  shows "strip s = s"
proof (cases "s = []")
  case True
  then show ?thesis by (simp add: strip_def)
next
  case False
  with assms have h: "\<not> isspace (hd s)" and l: "\<not> isspace (last s)" by auto
  from False h have 1: "dropWhile isspace s = s" by (simp add: dropWhile_fixed)
  from False l have "\<not> isspace (hd (rev s))" by (simp add: hd_rev)
  with False have "dropWhile isspace (rev s) = rev s" by (simp add: dropWhile_fixed)
  with 1 show ?thesis by (simp add: strip_def)
qed

lemma strip_strip: "strip (strip s) = strip s"
  by (rule strip_fixed) (rule strip_ends)

subsection \<open>White space that is already normal\<close>

lemma normalize_whitespace_head:
  "s = [] \<or> \<not> isspace (hd s) \<Longrightarrow>
   normalize_whitespace s = [] \<or> \<not> isspace (hd (normalize_whitespace s))"
  by (cases s) auto

lemma spaces_normal_normalize: "spaces_normal (normalize_whitespace s)"
proof (induction s rule: normalize_whitespace.induct)
  case 1
  show ?case by simp
next
  case (2 c cs)
  show ?case
  proof (cases "isspace c")
    case True
    have "normalize_whitespace (dropWhile isspace cs) = []
        \<or> \<not> isspace (hd (normalize_whitespace (dropWhile isspace cs)))"
      by (rule normalize_whitespace_head) (rule dropWhile_head)
    with True 2 show ?thesis by (simp add: isspace_def ord_def)
  next
    case False
    with 2 show ?thesis by simp
  qed
qed

lemma normalize_fixed: "spaces_normal s \<Longrightarrow> normalize_whitespace s = s"
proof (induction s)
  case Nil
  show ?case by simp
next
  case (Cons c cs)
  then have ih: "normalize_whitespace cs = cs" by simp
  show ?case
  proof (cases "isspace c")
    case True
    with Cons.prems have "c = CHR '' ''" and "cs = [] \<or> \<not> isspace (hd cs)" by auto
    then show ?thesis using True ih by (simp add: dropWhile_fixed)
  next
    case False
    with ih show ?thesis by simp
  qed
qed

lemma spaces_normal_append: "spaces_normal (a @ b) \<Longrightarrow> spaces_normal a \<and> spaces_normal b"
proof (induction a)
  case Nil
  then show ?case by simp
next
  case (Cons c a)
  then have "spaces_normal a \<and> spaces_normal b" by simp
  moreover have "isspace c \<Longrightarrow> c = CHR '' '' \<and> (a = [] \<or> \<not> isspace (hd a))"
    using Cons.prems by (cases a) (auto split: if_splits)
  ultimately show ?case by simp
qed

lemma spaces_normal_strip: "spaces_normal s \<Longrightarrow> spaces_normal (strip s)"
proof -
  assume n: "spaces_normal s"
  obtain a b where "s = a @ strip s @ b" using strip_parts by blast
  with n have "spaces_normal (a @ strip s @ b)" by simp
  then have "spaces_normal (strip s @ b)" using spaces_normal_append by blast
  then show ?thesis using spaces_normal_append by blast
qed

subsection \<open>Strings without tags\<close>

lemma match_tag_None:
  "match_tag (c # cs) = None \<longleftrightarrow>
     c \<noteq> CHR ''<'' \<or> cs = [] \<or> hd cs = CHR ''>'' \<or> CHR ''>'' \<notin> set cs"
  by (cases cs) auto

lemma remove_tags_fixed: "tag_free s \<Longrightarrow> remove_tags s = s"
  by (induction s) (simp_all del: match_tag.simps)

lemma remove_tags_head:
  "cs = [] \<or> hd cs = CHR ''>'' \<Longrightarrow> remove_tags cs = [] \<or> hd (remove_tags cs) = CHR ''>''"
  by (cases cs) auto

lemma tag_free_remove_tags: "tag_free (remove_tags s)"
proof (induction s rule: remove_tags.induct)
  case 1
  show ?case by simp
next
  case (2 c cs)
  show ?case
  proof (cases "match_tag (c # cs)")
    case (Some r)
    with 2 show ?thesis by (simp del: match_tag.simps)
  next
    case None
    then have "c \<noteq> CHR ''<'' \<or> cs = [] \<or> hd cs = CHR ''>'' \<or> CHR ''>'' \<notin> set cs"
      by (simp only: match_tag_None)
    then have "c \<noteq> CHR ''<'' \<or> remove_tags cs = [] \<or> hd (remove_tags cs) = CHR ''>''
        \<or> CHR ''>'' \<notin> set (remove_tags cs)"
      using remove_tags_head [of cs] set_remove_tags [of cs] by blast
    then have "match_tag (c # remove_tags cs) = None" by (simp only: match_tag_None)
    with None 2 show ?thesis by (simp del: match_tag.simps)
  qed
qed

lemma tag_free_append: "tag_free (a @ b) \<Longrightarrow> tag_free a \<and> tag_free b"
proof (induction a)
  case Nil
  then show ?case by simp
next
  case (Cons c a)
  then have ih: "tag_free a \<and> tag_free b" by (simp del: match_tag.simps)
  from Cons.prems have "match_tag (c # a @ b) = None" by (simp del: match_tag.simps)
  then have "c \<noteq> CHR ''<'' \<or> a @ b = [] \<or> hd (a @ b) = CHR ''>'' \<or> CHR ''>'' \<notin> set (a @ b)"
    by (simp only: match_tag_None)
  then have "c \<noteq> CHR ''<'' \<or> a = [] \<or> hd a = CHR ''>'' \<or> CHR ''>'' \<notin> set a"
    by (cases a) auto
  then have "match_tag (c # a) = None" by (simp only: match_tag_None)
  with ih show ?case by (simp del: match_tag.simps)
qed

lemma tag_free_dropWhile: "tag_free s \<Longrightarrow> tag_free (dropWhile P s)"
proof -
  assume "tag_free s"
  then have "tag_free (takeWhile P s @ dropWhile P s)" by simp
  then show ?thesis using tag_free_append by blast
qed

lemma not_space_gt: "\<not> isspace (CHR ''>'')" "CHR ''>'' \<noteq> CHR '' ''"
  by (simp_all add: isspace_def ord_def)

lemma normalize_whitespace_gt:
  "cs = [] \<or> hd cs = CHR ''>'' \<Longrightarrow>
   normalize_whitespace cs = [] \<or> hd (normalize_whitespace cs) = CHR ''>''"
  by (cases cs) (auto simp: not_space_gt)

lemma tag_free_normalize: "tag_free s \<Longrightarrow> tag_free (normalize_whitespace s)"
proof (induction s rule: normalize_whitespace.induct)
  case 1
  show ?case by simp
next
  case (2 c cs)
  from "2.prems" have t: "tag_free cs" and m: "match_tag (c # cs) = None"
    by (simp_all del: match_tag.simps)
  show ?case
  proof (cases "isspace c")
    case True
    from t have "tag_free (dropWhile isspace cs)" by (rule tag_free_dropWhile)
    with True 2 have "tag_free (normalize_whitespace (dropWhile isspace cs))" by simp
    with True show ?thesis by simp
  next
    case False
    from m have "c \<noteq> CHR ''<'' \<or> cs = [] \<or> hd cs = CHR ''>'' \<or> CHR ''>'' \<notin> set cs"
      by (simp only: match_tag_None)
    then have "c \<noteq> CHR ''<'' \<or> normalize_whitespace cs = []
        \<or> hd (normalize_whitespace cs) = CHR ''>'' \<or> CHR ''>'' \<notin> set (normalize_whitespace cs)"
      using normalize_whitespace_gt [of cs] set_normalize_whitespace [of cs] not_space_gt(2)
      by blast
    then have "match_tag (c # normalize_whitespace cs) = None" by (simp only: match_tag_None)
    with False t 2 show ?thesis by (simp del: match_tag.simps)
  qed
qed

lemma tag_free_strip: "tag_free s \<Longrightarrow> tag_free (strip s)"
proof -
  assume n: "tag_free s"
  obtain a b where "s = a @ strip s @ b" using strip_parts by blast
  with n have "tag_free (a @ strip s @ b)" by simp
  then have "tag_free (strip s @ b)" using tag_free_append by blast
  then show ?thesis using tag_free_append by blast
qed

subsection \<open>Cleaning a cleaned response\<close>

lemma split_from_no_sep: "sep \<notin> set s \<Longrightarrow> split_from sep cur s = [cur @ s]"
  by (induction s arbitrary: cur) auto

lemma split_no_sep: "sep \<notin> set s \<Longrightarrow> split sep s = [s]"
  by (simp add: split_def split_from_no_sep)

lemma not_control_space: "\<not> is_control (CHR '' '')"
  by (simp add: is_control_def ord_def)

lemma control_newline: "is_control (CHR 0x0A)"
  by (simp add: is_control_def ord_def)

lemma has_skip_pattern_Nil: "\<not> has_skip_pattern []"
  by (simp add: has_skip_pattern_def skip_patterns_def)

lemma clean_Nil: "strip (normalize_whitespace (remove_tags (remove_control []))) = []"
  by (simp add: strip_def remove_control_def)

lemma cleaned_shape:
  fixes j :: string
  defines "y \<equiv> strip (normalize_whitespace (remove_tags (remove_control j)))"
  shows "(\<forall>c \<in> set y. \<not> is_control c) \<and> spaces_normal y \<and> tag_free y \<and> strip y = y"
proof -
  have 1: "\<forall>c \<in> set y. \<not> is_control c"
  proof
    fix c
    assume "c \<in> set y"
    then have "c \<in> set (normalize_whitespace (remove_tags (remove_control j)))"
      unfolding y_def using set_strip by blast
    then have "c = CHR '' '' \<or> c \<in> set (remove_tags (remove_control j))"
      using set_normalize_whitespace by blast
    then have "c = CHR '' '' \<or> c \<in> set (remove_control j)"
      using set_remove_tags by blast
    then show "\<not> is_control c"
      using not_control_space set_remove_control by blast
  qed
  have 2: "spaces_normal y"
    unfolding y_def by (rule spaces_normal_strip) (rule spaces_normal_normalize)
  have 3: "tag_free y"
    unfolding y_def
    by (rule tag_free_strip, rule tag_free_normalize, rule tag_free_remove_tags)
  have 4: "strip y = y" unfolding y_def by (rule strip_strip)
  from 1 2 3 4 show ?thesis by blast
qed

lemma clean_again:
  assumes c: "\<forall>c \<in> set y. \<not> is_control c" and n: "spaces_normal y" and t: "tag_free y"
    and s: "strip y = y"
  shows "clean_mcphost_response (Some y) = (if has_skip_pattern y then [] else y)"
proof (cases "y = []")
  case True
  then show ?thesis by (simp add: clean_mcphost_response_def has_skip_pattern_Nil)
next
  case False
  have "CHR 0x0A \<notin> set y" using c control_newline by blast
  then have sp: "split (CHR 0x0A) y = [y]" by (rule split_no_sep)
  have "\<forall>c \<in> set y. \<not> ord c < 32" using c by (auto simp: is_control_def)
  then have f: "filter (\<lambda>c. ord c < 32) y = []" by (simp add: filter_empty_conv)
  have cl: "cleaned_lines [y] = (if has_skip_pattern y then [] else [y])"
    using False s f by simp
  have rc: "remove_control y = y" using c by (simp add: remove_control_def filter_id_conv)
  have rt: "remove_tags y = y" using t by (rule remove_tags_fixed)
  have nw: "normalize_whitespace y = y" using n by (rule normalize_fixed)
  show ?thesis
    using False
    by (simp add: clean_mcphost_response_def sp cl rc rt nw s clean_Nil del: cleaned_lines.simps)
qed

lemma clean_mcphost_response_twice:
  "clean_mcphost_response (Some (clean_mcphost_response response)) =
     (if has_skip_pattern (clean_mcphost_response response) then []
      else clean_mcphost_response response)"
proof (cases "\<exists>r. response = Some r \<and> r \<noteq> []")
  case False
  then have "clean_mcphost_response response = []"
    by (cases response) (auto simp: clean_mcphost_response_def)
  then show ?thesis by (simp add: clean_mcphost_response_def has_skip_pattern_Nil)
next
  case True
  then obtain r where r: "response = Some r" "r \<noteq> []" by blast
  define j where "j = join '' '' (cleaned_lines (split (CHR 0x0A) r))"
  have y: "clean_mcphost_response response
      = strip (normalize_whitespace (remove_tags (remove_control j)))"
    using r by (simp add: clean_mcphost_response_def j_def)
  show ?thesis
    unfolding y using cleaned_shape [of j] by (intro clean_again) blast+
qed

section \<open>Properties of the speech cleaner\<close>

subsection \<open>Which characters each step can produce\<close>

lemma sub_links_fixed: "\<not> has_link s \<Longrightarrow> sub_links s = s"
proof (induction s)
  case Nil
  show ?case by simp
next
  case (Cons c cs)
  from Cons.prems have m: "match_link (c # cs) = None" and "\<not> has_link cs"
    by (simp_all del: match_link.simps not_None_eq)
  with Cons.IH have "sub_links cs = cs" by simp
  with m show ?case by (simp del: match_link.simps)
qed

lemma set_replace_scan: "set (replace_scan old new s) \<subseteq> set s \<union> set new"
proof (induction old new s rule: replace_scan.induct)
  case (1 old new)
  show ?case by simp
next
  case (2 old new c cs)
  show ?case
  proof (cases old)
    case Nil
    with 2 show ?thesis by auto
  next
    case (Cons x xs)
    show ?thesis
    proof (cases "prefix old (c # cs)")
      case True
      have "set (drop (length xs) cs) \<subseteq> set cs" by (rule set_drop_subset)
      with 2(2) [OF Cons True] True Cons show ?thesis by auto
    next
      case False
      with 2(3) [OF Cons False] Cons show ?thesis by auto
    qed
  qed
qed

lemma set_replace: "set (replace old new s) \<subseteq> set s \<union> set new"
proof (cases "old = []")
  case True
  then show ?thesis by (auto simp: replace_def)
next
  case False
  then show ?thesis using set_replace_scan by (simp add: replace_def)
qed

lemma replace_scan_single: "replace_scan [c] [] s = filter (\<lambda>d. d \<noteq> c) s"
  by (induction s) auto

lemma replace_single: "replace [c] [] s = filter (\<lambda>d. d \<noteq> c) s"
  by (simp add: replace_def replace_scan_single)

lemma match_link_parts:
  assumes "match_link s = Some (g, r)"
  shows "set g \<subseteq> set s \<and> suffix r s \<and> CHR '']'' \<notin> set g"
proof (cases s)
  case Nil
  with assms show ?thesis by simp
next
  case (Cons c cs)
  from assms Cons obtain a b t where d: "dropWhile (\<lambda>d. d \<noteq> CHR '']'') cs = a # b # t"
    and g: "g = takeWhile (\<lambda>d. d \<noteq> CHR '']'') cs"
    and r: "r = tl (dropWhile (\<lambda>d. d \<noteq> CHR '')'') t)"
    by (auto split: if_splits list.splits)
  have 1: "set g \<subseteq> set s" unfolding g Cons using set_takeWhileD by fastforce
  have "suffix r (dropWhile (\<lambda>d. d \<noteq> CHR '')'') t)" unfolding r by (rule suffix_tl)
  also have "suffix \<dots> t" by (rule suffix_dropWhile)
  also have "suffix t (a # b # t)" by (simp add: suffix_ConsI)
  also have "suffix (a # b # t) cs" unfolding d [symmetric] by (rule suffix_dropWhile)
  also have "suffix cs s" unfolding Cons by (simp add: suffix_ConsI)
  finally have 2: "suffix r s" .
  have 3: "CHR '']'' \<notin> set g" unfolding g using set_takeWhileD by fastforce
  from 1 2 3 show ?thesis by blast
qed

lemma set_sub_links: "set (sub_links s) \<subseteq> set s"
proof (induction s rule: sub_links.induct)
  case 1
  show ?case by simp
next
  case (2 c cs)
  show ?case
  proof (cases "match_link (c # cs)")
    case None
    with 2 show ?thesis by (auto simp del: match_link.simps)
  next
    case (Some p)
    obtain g r where p: "p = (g, r)" by (cases p)
    from match_link_parts Some p have "set g \<subseteq> set (c # cs)" "suffix r (c # cs)" by blast+
    then have "set g \<subseteq> set (c # cs)" "set r \<subseteq> set (c # cs)" using set_mono_suffix by blast+
    with 2(2) [OF Some [unfolded p] refl] Some p show ?thesis
      by (auto simp del: match_link.simps)
  qed
qed

lemma set_replace_terms:
  "set (replace_terms rs s) \<subseteq> set s \<union> (\<Union>p \<in> set rs. set (snd p))"
proof (induction rs arbitrary: s)
  case Nil
  show ?case by simp
next
  case (Cons p rs)
  obtain old new where p: "p = (old, new)" by (cases p)
  have "set (replace_terms rs (replace old new s))
      \<subseteq> set (replace old new s) \<union> (\<Union>p \<in> set rs. set (snd p))"
    by (rule Cons.IH)
  with set_replace [of old new s] p show ?case by auto
qed

lemma set_limit_length: "set (limit_length s) \<subseteq> set s \<union> set truncation_notice"
proof (cases "length s > 500")
  case True
  have "set (take 500 s) \<subseteq> set s" by (rule set_take_subset)
  with True show ?thesis by (auto simp: limit_length_def)
next
  case False
  then show ?thesis by (auto simp: limit_length_def)
qed

lemma remove_formatting_clean: "set (remove_formatting s) \<inter> formatting = {}"
proof -
  define u where "u = filter (\<lambda>d. d \<noteq> CHR 0x60) (filter (\<lambda>d. d \<noteq> CHR ''#'')
        (filter (\<lambda>d. d \<noteq> CHR ''*'') (replace ''**'' [] s)))"
  have 1: "remove_formatting s = replace ''```'' [] u"
    by (simp add: remove_formatting_def replace_single u_def)
  have 2: "set (replace ''```'' [] u) \<subseteq> set u \<union> set []" by (rule set_replace)
  have 3: "set u \<inter> formatting = {}" by (auto simp: u_def formatting_def)
  from 2 3 show ?thesis unfolding 1 by auto
qed

lemma remove_formatting_fixed: "set s \<inter> formatting = {} \<Longrightarrow> remove_formatting s = s"
proof -
  assume "set s \<inter> formatting = {}"
  then have n: "CHR ''*'' \<notin> set s" "CHR ''#'' \<notin> set s" "CHR 0x60 \<notin> set s"
    by (auto simp: formatting_def)
  show ?thesis
    unfolding remove_formatting_def
    by (simp add: replace_absent [of "CHR ''*''"] replace_absent [of "CHR ''#''"]
        replace_absent [of "CHR 0x60"] n)
qed

lemma clean_text_for_speech_no_formatting:
  "set (clean_text_for_speech s) \<inter> formatting = {}"
proof -
  have "set (clean_text_for_speech s)
      \<subseteq> set (replace_terms replacements (sub_links (remove_formatting s)))
         \<union> set truncation_notice"
    unfolding clean_text_for_speech_def by (rule set_limit_length)
  also have "\<dots> \<subseteq> set (sub_links (remove_formatting s))
      \<union> (\<Union>p \<in> set replacements. set (snd p)) \<union> set truncation_notice"
    using set_replace_terms [of replacements] by blast
  also have "\<dots> \<subseteq> set (remove_formatting s)
      \<union> (\<Union>p \<in> set replacements. set (snd p)) \<union> set truncation_notice"
    using set_sub_links by blast
  finally have "set (clean_text_for_speech s) \<inter> formatting
      \<subseteq> (set (remove_formatting s) \<inter> formatting)
        \<union> (((\<Union>p \<in> set replacements. set (snd p)) \<union> set truncation_notice) \<inter> formatting)"
    by blast
  moreover have "((\<Union>p \<in> set replacements. set (snd p)) \<union> set truncation_notice) \<inter> formatting = {}"
    by (simp add: replacements_def truncation_notice_def formatting_def)
  ultimately show ?thesis using remove_formatting_clean by blast
qed

lemma limit_length_twice: "limit_length (limit_length s) = limit_length s"
  by (simp add: limit_length_def truncation_notice_def)

subsection \<open>Occurrences of a word around a replacement\<close>

lemma sublist_across:
  assumes "sublist u (a @ x # b)" and "x \<notin> set u"
  shows "sublist u a \<or> sublist u b"
proof -
  from assms(1) consider "sublist u a" | "sublist u (x # b)"
    | xs1 xs2 where "u = xs1 @ xs2" "suffix xs1 a" "prefix xs2 (x # b)"
    unfolding sublist_append by blast
  then show ?thesis
  proof cases
    case 1
    then show ?thesis by blast
  next
    case 2
    then have "prefix u (x # b) \<or> sublist u b" by (simp add: sublist_Cons_right)
    then show ?thesis
    proof
      assume "prefix u (x # b)"
      with assms(2) have "u = []" by (cases u) auto
      then show ?thesis by simp
    next
      assume "sublist u b"
      then show ?thesis by blast
    qed
  next
    case 3
    from 3(1,3) assms(2) have "xs2 = []" by (cases xs2) auto
    with 3(1,2) show ?thesis by auto
  qed
qed

lemma sublist_through_new:
  assumes occ: "sublist u (l @ new @ r)"
    and sep: "\<exists>c \<in> set new. c \<notin> set u"
    and inner: "\<not> sublist u new"
  shows "sublist u (l @ takeWhile (\<lambda>c. c \<in> set u) new)
         \<or> sublist u (rev (takeWhile (\<lambda>c. c \<in> set u) (rev new)) @ r)"
proof -
  define P where "P = (\<lambda>c. c \<in> set u)"
  define q where "q = rev (takeWhile P (rev new))"
  from sep have "dropWhile P (rev new) \<noteq> []" by (auto simp: dropWhile_eq_Nil_conv P_def)
  then obtain y m1 where d: "dropWhile P (rev new) = y # m1" by (cases "dropWhile P (rev new)") auto
  then have y: "\<not> P y" using hd_dropWhile [of P "rev new"] by auto
  have "takeWhile P (rev new) @ dropWhile P (rev new) = rev new" by (rule takeWhile_dropWhile_id)
  then have "rev (takeWhile P (rev new) @ y # m1) = rev (rev new)" unfolding d by (rule arg_cong)
  then have new: "new = rev m1 @ y # q" by (simp add: q_def)
  define m where "m = rev m1"
  from occ new have "sublist u ((l @ m) @ y # (q @ r))" by (simp add: m_def)
  then have "sublist u (l @ m) \<or> sublist u (q @ r)"
    by (rule sublist_across) (use y in \<open>simp add: P_def\<close>)
  then show ?thesis
  proof
    assume "sublist u (q @ r)"
    then show ?thesis by (simp add: q_def P_def)
  next
    assume lm: "sublist u (l @ m)"
    show ?thesis
    proof (cases "dropWhile P m")
      case Nil
      then have all: "\<forall>c \<in> set m. P c" by (simp add: dropWhile_eq_Nil_conv)
      then have "takeWhile P (m @ y # q) = m @ takeWhile P (y # q)" by (simp add: takeWhile_append2)
      with y have "takeWhile P new = m" by (simp add: new m_def)
      with lm show ?thesis by (simp add: P_def)
    next
      case (Cons x m2)
      then have x: "\<not> P x" using hd_dropWhile [of P m] by auto
      have mm: "m = takeWhile P m @ x # m2" using Cons takeWhile_dropWhile_id [of P m] by simp
      have "x \<in> set m" by (subst mm) simp
      with x have "takeWhile P (m @ y # q) = takeWhile P m" by (simp add: takeWhile_append1)
      then have p: "takeWhile P new = takeWhile P m" by (simp add: new m_def)
      from lm mm have "sublist u ((l @ takeWhile P m) @ x # m2)" by simp
      then have "sublist u (l @ takeWhile P m) \<or> sublist u m2"
        by (rule sublist_across) (use x in \<open>simp add: P_def\<close>)
      then show ?thesis
      proof
        assume "sublist u (l @ takeWhile P m)"
        with p show ?thesis by (simp add: P_def)
      next
        assume "sublist u m2"
        moreover have "sublist m2 new"
        proof -
          have "new = (takeWhile P m @ [x]) @ m2 @ (y # q)" using new mm by (simp add: m_def)
          then show ?thesis using sublist_appendI by metis
        qed
        ultimately have "sublist u new" by (rule sublist_order.order.trans)
        with inner show ?thesis by blast
      qed
    qed
  qed
qed

lemma rewrite_keeps_free:
  assumes sep: "\<exists>c \<in> set new. c \<notin> set u"
    and inner: "\<not> sublist u new"
    and pre: "prefix (takeWhile (\<lambda>c. c \<in> set u) new) old"
    and suf: "suffix (rev (takeWhile (\<lambda>c. c \<in> set u) (rev new))) old"
    and free: "\<not> sublist u (l @ old @ r)"
  shows "\<not> sublist u (l @ new @ r)"
proof
  assume "sublist u (l @ new @ r)"
  from sublist_through_new [OF this sep inner]
  show False
  proof
    assume a: "sublist u (l @ takeWhile (\<lambda>c. c \<in> set u) new)"
    from pre obtain o1 where "old = takeWhile (\<lambda>c. c \<in> set u) new @ o1" by (auto simp: prefix_def)
    then have "l @ old @ r = (l @ takeWhile (\<lambda>c. c \<in> set u) new) @ (o1 @ r)" by simp
    then have "sublist (l @ takeWhile (\<lambda>c. c \<in> set u) new) (l @ old @ r)"
      using sublist_append_rightI by metis
    with a have "sublist u (l @ old @ r)" by (rule sublist_order.order.trans)
    with free show False by blast
  next
    assume a: "sublist u (rev (takeWhile (\<lambda>c. c \<in> set u) (rev new)) @ r)"
    from suf obtain o1 where "old = o1 @ rev (takeWhile (\<lambda>c. c \<in> set u) (rev new))"
      by (auto simp: suffix_def)
    then have "l @ old @ r = (l @ o1) @ (rev (takeWhile (\<lambda>c. c \<in> set u) (rev new)) @ r)" by simp
    then have "sublist (rev (takeWhile (\<lambda>c. c \<in> set u) (rev new)) @ r) (l @ old @ r)"
      using sublist_append_leftI by metis
    with a have "sublist u (l @ old @ r)" by (rule sublist_order.order.trans)
    with free show False by blast
  qed
qed

lemma replace_scan_match:
  "old = x # xs \<Longrightarrow> prefix old (c # cs) \<Longrightarrow>
   replace_scan old new (c # cs) = new @ replace_scan old new (drop (length xs) cs)"
  by simp

lemma replace_scan_skip:
  "\<not> prefix old (c # cs) \<Longrightarrow> replace_scan old new (c # cs) = c # replace_scan old new cs"
  by (cases old) auto

lemma replace_scan_empty: "replace_scan [] new (c # cs) = c # replace_scan [] new cs"
  by simp

lemma prefix_split: "prefix (x # xs) (c # cs) \<Longrightarrow> c # cs = (x # xs) @ drop (length xs) cs"
  by (auto simp: prefix_def)

lemma replace_scan_keeps_free:
  assumes step: "\<And>l r. \<not> sublist u (l @ old @ r) \<Longrightarrow> \<not> sublist u (l @ new @ r)"
  shows "\<not> sublist u (l @ s) \<Longrightarrow> \<not> sublist u (l @ replace_scan old new s)"
proof (induction s arbitrary: l rule: length_induct)
  case (1 s)
  show ?case
  proof (cases s)
    case Nil
    with 1 show ?thesis by simp
  next
    case (Cons c cs)
    show ?thesis
    proof (cases old)
      case Nil
      from 1(2) Cons have "\<not> sublist u ((l @ [c]) @ cs)" by simp
      moreover have "length cs < length s" using Cons by simp
      ultimately have "\<not> sublist u ((l @ [c]) @ replace_scan old new cs)" using 1(1) by blast
      then show ?thesis unfolding Cons Nil replace_scan_empty by simp
    next
      case old: (Cons x xs)
      show ?thesis
      proof (cases "prefix old (c # cs)")
        case True
        define rest where "rest = drop (length xs) cs"
        from True old have s: "c # cs = old @ rest"
          unfolding rest_def using prefix_split [of x xs c cs] by simp
        with 1(2) Cons have "\<not> sublist u (l @ old @ rest)" by simp
        then have "\<not> sublist u ((l @ new) @ rest)" using step by simp
        moreover have "length rest < length s" using Cons by (simp add: rest_def)
        ultimately have "\<not> sublist u ((l @ new) @ replace_scan old new rest)" using 1(1) by blast
        then show ?thesis
          unfolding Cons replace_scan_match [OF old True] rest_def by simp
      next
        case False
        from 1(2) Cons have "\<not> sublist u ((l @ [c]) @ cs)" by simp
        moreover have "length cs < length s" using Cons by simp
        ultimately have "\<not> sublist u ((l @ [c]) @ replace_scan old new cs)" using 1(1) by blast
        then show ?thesis unfolding Cons replace_scan_skip [OF False] by simp
      qed
    qed
  qed
qed

lemma prefix_of_take: "prefix xs (take n ys) \<Longrightarrow> prefix xs ys"
proof -
  assume "prefix xs (take n ys)"
  then obtain zs where "take n ys = xs @ zs" by (auto simp: prefix_def)
  then have "ys = xs @ zs @ drop n ys" using append_take_drop_id [of n ys] by simp
  then show ?thesis by (auto simp: prefix_def)
qed

lemma prefix_into_take: "prefix xs ys \<Longrightarrow> length xs \<le> n \<Longrightarrow> prefix xs (take n ys)"
  by (auto simp: prefix_def)

lemma sublist_same_length: "sublist xs ys \<Longrightarrow> length ys \<le> length xs \<Longrightarrow> xs = ys"
  by (auto simp: sublist_def)

lemma sublist_short_tail:
  assumes "sublist old (q @ r)" and "length r < length old"
  shows "hd old \<in> set q"
proof -
  from assms(1) consider "sublist old q" | "sublist old r"
    | xs1 xs2 where "old = xs1 @ xs2" "suffix xs1 q" "prefix xs2 r"
    unfolding sublist_append by blast
  then show ?thesis
  proof cases
    case 1
    moreover from assms(2) have "old \<noteq> []" by auto
    ultimately show ?thesis using set_mono_sublist [of old q] by (cases old) auto
  next
    case 2
    then have "length old \<le> length r" by (rule sublist_length_le)
    with assms(2) show ?thesis by simp
  next
    case 3
    have "xs1 \<noteq> []"
    proof
      assume "xs1 = []"
      with 3 have "prefix old r" by simp
      then have "length old \<le> length r" by (rule prefix_length_le)
      with assms(2) show False by simp
    qed
    then have "hd old = hd xs1" "hd xs1 \<in> set xs1" using 3(1) by auto
    moreover have "set xs1 \<subseteq> set q" using 3(2) by (rule set_mono_suffix)
    ultimately show ?thesis by auto
  qed
qed

lemma replace_scan_removes_from:
  assumes sep: "\<exists>c \<in> set new. c \<notin> set old"
    and inner: "\<not> sublist old new"
    and pre: "prefix (takeWhile (\<lambda>c. c \<in> set old) new) (butlast old)"
    and suf: "hd old \<notin> set (takeWhile (\<lambda>c. c \<in> set old) (rev new))"
    and ne: "old \<noteq> []"
  shows "\<not> sublist old (l @ take (length old - 1) s) \<Longrightarrow>
         \<not> sublist old (l @ replace_scan old new s)"
proof (induction s arbitrary: l rule: length_induct)
  case (1 s)
  obtain x xs where old: "old = x # xs" using ne by (cases old) auto
  then have k: "length old - 1 = length xs" by simp
  show ?case
  proof (cases s)
    case Nil
    with 1 show ?thesis by simp
  next
    case (Cons c cs)
    show ?thesis
    proof (cases "prefix old (c # cs)")
      case False
      have "\<not> sublist old ((l @ [c]) @ take (length old - 1) cs)"
      proof
        assume "sublist old ((l @ [c]) @ take (length old - 1) cs)"
        then have "sublist old (l @ take (length old) (c # cs))" using old by simp
        then consider "sublist old l" | "sublist old (take (length old) (c # cs))"
          | xs1 xs2 where "old = xs1 @ xs2" "suffix xs1 l" "prefix xs2 (take (length old) (c # cs))"
          unfolding sublist_append by blast
        then show False
        proof cases
          case 1
          then have "sublist old (l @ take (length old - 1) s)"
            using sublist_order.order.trans sublist_append_rightI by blast
          with "1.prems" show False by blast
        next
          case 2
          then have "old = take (length old) (c # cs)" by (rule sublist_same_length) simp
          then have "prefix old (take (length old) (c # cs))" by simp
          then have "prefix old (c # cs)" by (rule prefix_of_take)
          with False show False by blast
        next
          case 3
          show False
          proof (cases "xs1 = []")
            case True
            with 3 have "prefix old (take (length old) (c # cs))" by simp
            then have "prefix old (c # cs)" by (rule prefix_of_take)
            with False show False by blast
          next
            case ne1: False
            with 3(1) have len: "length xs2 \<le> length old - 1" by (cases xs1) auto
            from 3(3) have "prefix xs2 (c # cs)" by (rule prefix_of_take)
            then have "prefix xs2 (take (length old - 1) (c # cs))"
              using len by (rule prefix_into_take)
            with 3(1,2) have "sublist old (l @ take (length old - 1) (c # cs))"
              unfolding sublist_append by blast
            with "1.prems" Cons show False by blast
          qed
        qed
      qed
      moreover have "length cs < length s" using Cons by simp
      ultimately have "\<not> sublist old ((l @ [c]) @ replace_scan old new cs)" using "1.IH" by blast
      then show ?thesis unfolding Cons replace_scan_skip [OF False] by simp
    next
      case True
      define rest where "rest = drop (length xs) cs"
      from True old have s: "c # cs = old @ rest"
        unfolding rest_def using prefix_split [of x xs c cs] by simp
      have b: "take (length old - 1) s = butlast old"
        unfolding Cons s by (simp add: butlast_conv_take)
      have "\<not> sublist old ((l @ new) @ take (length old - 1) rest)"
      proof
        assume "sublist old ((l @ new) @ take (length old - 1) rest)"
        then have "sublist old (l @ new @ take (length old - 1) rest)" by simp
        from sublist_through_new [OF this sep inner]
        show False
        proof
          assume a: "sublist old (l @ takeWhile (\<lambda>c. c \<in> set old) new)"
          from pre obtain o1 where "butlast old = takeWhile (\<lambda>c. c \<in> set old) new @ o1"
            by (auto simp: prefix_def)
          then have "l @ butlast old = (l @ takeWhile (\<lambda>c. c \<in> set old) new) @ o1" by simp
          then have "sublist (l @ takeWhile (\<lambda>c. c \<in> set old) new) (l @ butlast old)"
            using sublist_append_rightI by metis
          with a have "sublist old (l @ butlast old)" by (rule sublist_order.order.trans)
          with "1.prems" b show False by simp
        next
          assume "sublist old (rev (takeWhile (\<lambda>c. c \<in> set old) (rev new))
              @ take (length old - 1) rest)"
          then have "hd old \<in> set (rev (takeWhile (\<lambda>c. c \<in> set old) (rev new)))"
            by (rule sublist_short_tail) (use old in simp)
          with suf show False by simp
        qed
      qed
      moreover have "length rest < length s" using Cons by (simp add: rest_def)
      ultimately have "\<not> sublist old ((l @ new) @ replace_scan old new rest)"
        using "1.IH" by blast
      then show ?thesis unfolding Cons replace_scan_match [OF old True] rest_def by simp
    qed
  qed
qed

lemma replace_scan_removes:
  assumes "\<exists>c \<in> set new. c \<notin> set old" and "\<not> sublist old new"
    and "prefix (takeWhile (\<lambda>c. c \<in> set old) new) (butlast old)"
    and "hd old \<notin> set (takeWhile (\<lambda>c. c \<in> set old) (rev new))"
    and "old \<noteq> []"
  shows "\<not> sublist old (replace_scan old new s)"
proof -
  have "\<not> sublist old ([] @ take (length old - 1) s)"
  proof
    assume "sublist old ([] @ take (length old - 1) s)"
    then have "length old \<le> length (take (length old - 1) s)" using sublist_length_le by fastforce
    with assms(5) show False by (cases old) auto
  qed
  from replace_scan_removes_from [OF assms this] show ?thesis by simp
qed

subsection \<open>The nine acronyms\<close>

lemma all_removes_ok: "\<forall>(old, new) \<in> set replacements. removes_ok old new"
  by code_simp

lemma all_keeps_ok:
  "\<forall>(old, new) \<in> set replacements. \<forall>u \<in> fst ` set replacements. u = old \<or> keeps_ok u old new"
  by code_simp

lemma removes_okD:
  assumes "(old, new) \<in> set replacements"
  shows "removes_ok old new"
proof -
  from all_removes_ok assms have "case (old, new) of (a, b) \<Rightarrow> removes_ok a b" by (rule bspec)
  then show ?thesis by (simp only: prod.case)
qed

lemma keeps_okD:
  assumes "(old, new) \<in> set replacements" and "u \<in> fst ` set replacements" and "u \<noteq> old"
  shows "keeps_ok u old new"
proof -
  from all_keeps_ok assms(1)
  have "case (old, new) of (a, b) \<Rightarrow> \<forall>u \<in> fst ` set replacements. u = a \<or> keeps_ok u a b"
    by (rule bspec)
  then have "\<forall>u \<in> fst ` set replacements. u = old \<or> keeps_ok u old new"
    by (simp only: prod.case)
  from bspec [OF this assms(2)] assms(3) show ?thesis by (simp only: simp_thms)
qed

lemma step_removes:
  assumes "(old, new) \<in> set replacements"
  shows "\<not> sublist old (replace old new s)"
proof -
  from assms have "removes_ok old new" by (rule removes_okD)
  then have c: "\<exists>c \<in> set new. c \<notin> set old" "\<not> sublist old new"
      "prefix (takeWhile (\<lambda>c. c \<in> set old) new) (butlast old)"
      "hd old \<notin> set (takeWhile (\<lambda>c. c \<in> set old) (rev new))" "old \<noteq> []"
    unfolding removes_ok_def by blast+
  from c have "\<not> sublist old (replace_scan old new s)" by (rule replace_scan_removes)
  with c(5) show ?thesis by (simp add: replace_def)
qed

lemma step_keeps:
  assumes "(old, new) \<in> set replacements" and "u \<in> fst ` set replacements" and "u \<noteq> old"
    and free: "\<not> sublist u s"
  shows "\<not> sublist u (replace old new s)"
proof -
  from assms(1-3) have "keeps_ok u old new" by (rule keeps_okD)
  then have c: "\<exists>c \<in> set new. c \<notin> set u" "\<not> sublist u new"
      "prefix (takeWhile (\<lambda>c. c \<in> set u) new) old"
      "suffix (rev (takeWhile (\<lambda>c. c \<in> set u) (rev new))) old" "old \<noteq> []"
    unfolding keeps_ok_def by blast+
  have "\<And>l r. \<not> sublist u (l @ old @ r) \<Longrightarrow> \<not> sublist u (l @ new @ r)"
    using c(1-4) by (rule rewrite_keeps_free)
  from replace_scan_keeps_free [of u old new "[]" s, OF this] free
  have "\<not> sublist u (replace_scan old new s)" by simp
  with c(5) show ?thesis by (simp add: replace_def)
qed

lemma replace_terms_frees:
  assumes "set rs \<subseteq> set replacements" and "D \<subseteq> fst ` set replacements"
    and "\<forall>u \<in> D. \<not> sublist u s"
  shows "\<forall>u \<in> D \<union> fst ` set rs. \<not> sublist u (replace_terms rs s)"
  using assms
proof (induction rs arbitrary: s D)
  case Nil
  then show ?case by simp
next
  case (Cons p rs)
  obtain old new where p: "p = (old, new)" by (cases p)
  with Cons.prems(1) have m: "(old, new) \<in> set replacements" by simp
  have 1: "set rs \<subseteq> set replacements" using Cons.prems(1) by simp
  have 2: "insert old D \<subseteq> fst ` set replacements" using Cons.prems(2) m by force
  have 3: "\<forall>u \<in> insert old D. \<not> sublist u (replace old new s)"
  proof
    fix u
    assume u: "u \<in> insert old D"
    show "\<not> sublist u (replace old new s)"
    proof (cases "u = old")
      case True
      with m show ?thesis by (simp add: step_removes)
    next
      case False
      with u have "u \<in> D" by simp
      with Cons.prems(2,3) have "u \<in> fst ` set replacements" "\<not> sublist u s" by auto
      with m False show ?thesis by (intro step_keeps)
    qed
  qed
  from Cons.IH [OF 1 2 3] p show ?case by simp
qed

lemma replace_terms_free:
  "u \<in> fst ` set replacements \<Longrightarrow> \<not> sublist u (replace_terms replacements s)"
  using replace_terms_frees [of replacements "{}" s] by auto

lemma replace_terms_fixed:
  "\<forall>u \<in> fst ` set rs. \<not> sublist u s \<Longrightarrow> replace_terms rs s = s"
proof (induction rs)
  case Nil
  show ?case by simp
next
  case (Cons p rs)
  obtain old new where p: "p = (old, new)" by (cases p)
  with Cons.prems have n: "\<not> sublist old s" by simp
  then have "old \<noteq> []" by auto
  then have "replace old new s = s" using n by (rule replace_id)
  with Cons p show ?case by simp
qed

lemma notice_ok:
  "\<forall>u \<in> fst ` set replacements. \<not> sublist u truncation_notice \<and> hd truncation_notice \<notin> set u"
  by code_simp

lemma limit_length_free:
  assumes u: "u \<in> fst ` set replacements" and free: "\<not> sublist u s"
  shows "\<not> sublist u (limit_length s)"
proof (cases "length s > 500")
  case False
  with free show ?thesis by (simp add: limit_length_def)
next
  case True
  from u notice_ok have n: "\<not> sublist u truncation_notice" and h: "hd truncation_notice \<notin> set u"
    by blast+
  have ne: "truncation_notice \<noteq> []" by (simp add: truncation_notice_def)
  have "\<not> sublist u (take 500 s @ truncation_notice)"
  proof
    assume "sublist u (take 500 s @ truncation_notice)"
    then have "sublist u (take 500 s @ hd truncation_notice # tl truncation_notice)"
      using ne by simp
    then have "sublist u (take 500 s) \<or> sublist u (tl truncation_notice)"
      using h by (rule sublist_across)
    then show False
    proof
      assume "sublist u (take 500 s)"
      then have "sublist u s" using sublist_take sublist_order.order.trans by blast
      with free show False by blast
    next
      assume "sublist u (tl truncation_notice)"
      moreover have "sublist (tl truncation_notice) truncation_notice"
        using suffix_tl suffix_imp_sublist by blast
      ultimately have "sublist u truncation_notice" by (rule sublist_order.order.trans)
      with n show False by blast
    qed
  qed
  with True show ?thesis by (simp add: limit_length_def)
qed

lemma clean_text_for_speech_free:
  "u \<in> fst ` set replacements \<Longrightarrow> \<not> sublist u (clean_text_for_speech s)"
  unfolding clean_text_for_speech_def by (intro limit_length_free replace_terms_free)

lemma clean_text_for_speech_again:
  assumes "\<not> has_link (clean_text_for_speech s)"
  shows "clean_text_for_speech (clean_text_for_speech s) = clean_text_for_speech s"
proof -
  define y where "y = clean_text_for_speech s"
  have 1: "remove_formatting y = y"
    unfolding y_def by (rule remove_formatting_fixed) (rule clean_text_for_speech_no_formatting)
  have 2: "sub_links y = y" using assms unfolding y_def by (rule sub_links_fixed)
  have 3: "replace_terms replacements y = y"
    unfolding y_def by (rule replace_terms_fixed) (simp add: clean_text_for_speech_free)
  have 4: "limit_length y = y"
    unfolding y_def clean_text_for_speech_def by (rule limit_length_twice)
  have "clean_text_for_speech y = y"
    by (simp add: clean_text_for_speech_def [of y] 1 2 3 4)
  then show ?thesis by (simp add: y_def)
qed

subsection \<open>Closing brackets\<close>

lemma closers_append: "closers (a @ b) = closers a + closers b"
  by (simp add: closers_def)

lemma closers_absent: "CHR '']'' \<notin> set s \<Longrightarrow> closers s = 0"
  by (auto simp: closers_def filter_empty_conv)

lemma closers_suffix: "suffix r s \<Longrightarrow> closers r \<le> closers s"
  by (auto simp: suffix_def closers_append)

lemma closers_take: "closers (take n s) \<le> closers s"
proof -
  have "closers (take n s @ drop n s) = closers (take n s) + closers (drop n s)"
    by (rule closers_append)
  then show ?thesis by simp
qed

lemma closers_drop: "closers (drop n s) \<le> closers s"
  by (rule closers_suffix) (rule suffix_drop)

lemma match_link_closers:
  assumes "match_link s = Some (g, r)"
  shows "closers g = 0 \<and> closers r < closers s"
proof (cases s)
  case Nil
  with assms show ?thesis by simp
next
  case (Cons c cs)
  from assms Cons obtain a b t where d: "dropWhile (\<lambda>d. d \<noteq> CHR '']'') cs = a # b # t"
    and r: "r = tl (dropWhile (\<lambda>d. d \<noteq> CHR '')'') t)"
    by (auto split: if_splits list.splits)
  from d have a: "a = CHR '']''" using hd_dropWhile [of "\<lambda>d. d \<noteq> CHR '']''" cs] by auto
  have "suffix r (dropWhile (\<lambda>d. d \<noteq> CHR '')'') t)" unfolding r by (rule suffix_tl)
  also have "suffix \<dots> t" by (rule suffix_dropWhile)
  finally have "closers r \<le> closers t" by (rule closers_suffix)
  moreover have "closers (a # b # t) \<le> closers cs"
    unfolding d [symmetric] by (rule closers_suffix) (rule suffix_dropWhile)
  moreover have "closers (a # b # t) \<ge> 1 + closers t" using a by (simp add: closers_def)
  moreover have "closers cs \<le> closers s" unfolding Cons by (simp add: closers_def)
  ultimately have "closers r < closers s" by simp
  moreover have "closers g = 0"
    using match_link_parts [OF assms] by (simp add: closers_absent)
  ultimately show ?thesis by blast
qed

lemma closers_sub_links: "closers (sub_links s) \<le> closers s"
proof (induction s rule: sub_links.induct)
  case 1
  show ?case by simp
next
  case (2 c cs)
  show ?case
  proof (cases "match_link (c # cs)")
    case None
    with 2(1) [OF None] show ?thesis by (simp add: closers_def del: match_link.simps)
  next
    case (Some p)
    obtain g r where p: "p = (g, r)" by (cases p)
    from match_link_closers Some p have "closers g = 0" "closers r < closers (c # cs)" by blast+
    with 2(2) [OF Some [unfolded p] refl] Some p show ?thesis
      by (simp add: closers_append del: match_link.simps)
  qed
qed

lemma closers_sub_links_less: "has_link s \<Longrightarrow> closers (sub_links s) < closers s"
proof (induction s)
  case Nil
  then show ?case by simp
next
  case (Cons c cs)
  show ?case
  proof (cases "match_link (c # cs)")
    case None
    with Cons.prems have "has_link cs" by (simp del: match_link.simps)
    with Cons.IH have "closers (sub_links cs) < closers cs" by simp
    with None show ?thesis by (simp add: closers_def del: match_link.simps)
  next
    case (Some p)
    obtain g r where p: "p = (g, r)" by (cases p)
    from match_link_closers Some p have "closers g = 0" "closers r < closers (c # cs)" by blast+
    moreover have "closers (sub_links r) \<le> closers r" by (rule closers_sub_links)
    ultimately show ?thesis using Some p by (simp add: closers_append del: match_link.simps)
  qed
qed

lemma closers_replace_scan:
  assumes "closers new = 0"
  shows "closers (replace_scan old new s) \<le> closers s"
proof (induction s rule: length_induct)
  case (1 s)
  show ?case
  proof (cases s)
    case Nil
    then show ?thesis by simp
  next
    case (Cons c cs)
    have ih: "closers (replace_scan old new cs) \<le> closers cs" using 1 Cons by simp
    show ?thesis
    proof (cases "prefix old (c # cs)")
      case False
      with ih show ?thesis
        unfolding Cons replace_scan_skip [OF False] by (simp add: closers_def)
    next
      case True
      show ?thesis
      proof (cases old)
        case Nil
        with ih show ?thesis unfolding Cons by (simp add: closers_def)
      next
        case old: (Cons x xs)
        have "length (drop (length xs) cs) < length s" using Cons by simp
        then have "closers (replace_scan old new (drop (length xs) cs))
            \<le> closers (drop (length xs) cs)" using 1 by blast
        also have "\<dots> \<le> closers cs" by (rule closers_drop)
        also have "\<dots> \<le> closers (c # cs)" by (simp add: closers_def)
        finally show ?thesis
          unfolding Cons replace_scan_match [OF old True] using assms
          by (simp add: closers_append)
      qed
    qed
  qed
qed

lemma closers_replacements: "\<forall>(old, new) \<in> set replacements. old \<noteq> [] \<and> closers new = 0"
  unfolding closers_def by code_simp

lemma closers_replace_terms:
  "set rs \<subseteq> set replacements \<Longrightarrow> closers (replace_terms rs s) \<le> closers s"
proof (induction rs arbitrary: s)
  case Nil
  show ?case by simp
next
  case (Cons p rs)
  obtain old new where p: "p = (old, new)" by (cases p)
  with Cons.prems have m: "(old, new) \<in> set replacements" by simp
  from closers_replacements m have "case (old, new) of (a, b) \<Rightarrow> a \<noteq> [] \<and> closers b = 0"
    by (rule bspec)
  then have c: "old \<noteq> []" "closers new = 0" by simp_all
  have "closers (replace_terms rs (replace old new s)) \<le> closers (replace old new s)"
    using Cons by simp
  also have "\<dots> \<le> closers s" using c closers_replace_scan by (simp add: replace_def)
  finally show ?case using p by simp
qed

lemma closers_limit_length: "closers (limit_length s) \<le> closers s"
proof -
  have "closers truncation_notice = 0" by (simp add: closers_def truncation_notice_def)
  then show ?thesis using closers_take [of 500 s] by (simp add: limit_length_def closers_append)
qed

lemma clean_text_for_speech_link:
  assumes "has_link (clean_text_for_speech s)"
  shows "clean_text_for_speech (clean_text_for_speech s) \<noteq> clean_text_for_speech s"
proof -
  define y where "y = clean_text_for_speech s"
  have 1: "remove_formatting y = y"
    unfolding y_def by (rule remove_formatting_fixed) (rule clean_text_for_speech_no_formatting)
  have "closers (clean_text_for_speech y) \<le> closers (replace_terms replacements (sub_links y))"
    unfolding clean_text_for_speech_def [of y] 1 by (rule closers_limit_length)
  also have "\<dots> \<le> closers (sub_links y)" by (rule closers_replace_terms) simp
  also have "\<dots> < closers y" using assms unfolding y_def by (rule closers_sub_links_less)
  finally have "clean_text_for_speech y \<noteq> y" by auto
  then show ?thesis by (simp add: y_def)
qed

lemma clean_text_for_speech_twice:
  "clean_text_for_speech (clean_text_for_speech s) = clean_text_for_speech s
     \<longleftrightarrow> \<not> has_link (clean_text_for_speech s)"
  using clean_text_for_speech_link clean_text_for_speech_again by blast

section \<open>Properties of the runner\<close>

lemmas io_defs = bind_def ret_def try_except_def perform_def time_time_def poll_def
  select_def readline_def logged_def add_all_output_def add_stderr_output_def anything_def
  result_text_def



subsection \<open>What the outermost handler lets through\<close>







subsection \<open>One round of the polling loop\<close>




lemma loop_body_exit:
  assumes "poll_result w (trace s) = Inr (Some rc)"
  shows "loop_body w v s = Some (Inr False, s\<lparr>trace := trace s @ [Poll]\<rparr>)"
  using assms by (simp add: loop_body_def io_defs)

lemma loop_body_no_data:
  assumes "\<not> win32 w" and "poll_result w (trace s) = Inr None"
    and "select_ready w (trace s @ [Poll]) Stdout = Inr False"
    and "select_ready w (trace s @ [Poll, Select Stdout 1]) Stderr = Inr False"
  shows "loop_body w v s =
     Some (Inr True, s\<lparr>trace := trace s @ [Poll, Select Stdout 1, Select Stderr v]\<rparr>)"
  using assms by (simp add: loop_body_def read_line_with_timeout_def io_defs)

lemma loop_body_data:
  assumes "\<not> win32 w" and "poll_result w (trace s) = Inr None"
    and "select_ready w (trace s @ [Poll]) Stdout = Inr True"
    and "readline_result w (trace s @ [Poll, Select Stdout 1]) Stdout = Inr l1"
    and "select_ready w (trace s @ [Poll, Select Stdout 1, Readline Stdout]) Stderr = Inr True"
    and "readline_result w (trace s @ [Poll, Select Stdout 1, Readline Stdout, Select Stderr v])
           Stderr = Inr l2"
  shows "loop_body w v s = Some (Inr True,
     \<lparr>trace = trace s @ [Poll, Select Stdout 1, Readline Stdout, Select Stderr v, Readline Stderr],
      all_output = all_output s @ l1, stderr_output = stderr_output s @ l2\<rparr>)"
  using assms by (simp add: loop_body_def read_line_with_timeout_def io_defs)

lemma loop_body_order:
  assumes "\<not> win32 w" and "loop_body w v s = Some (r, s')"
  shows "\<exists>t \<in> {[Poll], [Poll, Select Stdout 1], [Poll, Select Stdout 1, Select Stderr v],
               [Poll, Select Stdout 1, Select Stderr v, Readline Stderr],
               [Poll, Select Stdout 1, Readline Stdout, Select Stderr v],
               [Poll, Select Stdout 1, Readline Stdout, Select Stderr v, Readline Stderr]}.
           trace s' = trace s @ t"
  using assms unfolding loop_body_def read_line_with_timeout_def io_defs
  by (auto split: sum.splits option.splits if_splits)

subsection \<open>The loop ends once the clock has passed the deadline\<close>





subsection \<open>The function returns\<close>




section \<open>The claims\<close>

text \<open>
  C8. For every input, the output of \<^verbatim>\<open>clean_mcphost_response\<close> holds no character
  with a code point below 32: every character of the output has \<^verbatim>\<open>ord\<close> at least 32.
\<close>

theorem clean_mcphost_response_printable:
  "c \<in> set (clean_mcphost_response response) \<Longrightarrow> 32 \<le> ord c"
proof -
  assume c: "c \<in> set (clean_mcphost_response response)"
  then obtain r where r: "response = Some r" "r \<noteq> []"
    by (auto simp: clean_mcphost_response_def split: option.splits if_splits)
  define j where "j = join '' '' (cleaned_lines (split (CHR 0x0A) r))"
  from c r have "c \<in> set (strip (normalize_whitespace (remove_tags (remove_control j))))"
    by (simp add: clean_mcphost_response_def j_def)
  then have "c \<in> set (normalize_whitespace (remove_tags (remove_control j)))"
    using set_strip by blast
  then have "c = CHR '' '' \<or> c \<in> set (remove_tags (remove_control j))"
    using set_normalize_whitespace by blast
  then show ?thesis
  proof
    assume "c = CHR '' ''"
    then show ?thesis by (simp add: ord_space)
  next
    assume "c \<in> set (remove_tags (remove_control j))"
    then have "c \<in> set (remove_control j)" using set_remove_tags by blast
    then have "\<not> is_control c" by (rule set_remove_control)
    then show ?thesis by (simp add: is_control_def)
  qed
qed

theorem clean_mcphost_response_printable_witness:
  "CHR ''H'' \<in> set (clean_mcphost_response (Some [CHR 0x07, CHR ''H'', CHR 0x09, CHR ''i'']))
   \<and> 32 \<le> ord (CHR ''H'')"
proof -
  have m: "CHR ''H'' \<in> set (clean_mcphost_response (Some [CHR 0x07, CHR ''H'', CHR 0x09, CHR ''i'']))"
    by code_simp
  from m clean_mcphost_response_printable [OF m] show ?thesis by simp
qed

text \<open>
  C9. \<^verbatim>\<open>clean_mcphost_response\<close> returns the empty string for \<^verbatim>\<open>None\<close> and for the
  empty string; being a value of the function, it is returned, not raised.
\<close>

theorem clean_mcphost_response_falsy:
  "clean_mcphost_response None = [] \<and> clean_mcphost_response (Some []) = []"
  by (simp add: clean_mcphost_response_def)

text \<open>
  C6. A round of the interactive loop leaves the loop exactly when the lowercased
  transcript is one of the five exit commands; the comparison is of whole strings, so
  \<^verbatim>\<open>STOP\<close> leaves and \<^verbatim>\<open>please stop\<close> is dispatched to MCPHost.
\<close>

theorem exit_check:
  "(interactive_round user_input = Leave
      \<longleftrightarrow> (\<exists>s. user_input = Some s
               \<and> lower s \<in> {''exit'', ''quit'', ''goodbye'', ''stop'', ''bye''}))
   \<and> interactive_round (Some ''STOP'') = Leave
   \<and> interactive_round (Some ''please stop'') = Dispatch ''please stop''"
proof -
  have a: "interactive_round user_input = Leave
      \<longleftrightarrow> (\<exists>s. user_input = Some s
               \<and> lower s \<in> {''exit'', ''quit'', ''goodbye'', ''stop'', ''bye''})"
    by (cases user_input) (auto simp: interactive_round_def lower_def exit_commands_def)
  have b: "interactive_round (Some ''STOP'') = Leave" by code_simp
  have c: "interactive_round (Some ''please stop'') = Dispatch ''please stop''" by code_simp
  from a b c show ?thesis by blast
qed




text \<open>
  C3 fails where the child has been spawned and the write of the prompt raises: the
  handler at the end of \<^verbatim>\<open>run_mcphost_basic\<close> returns the error text, and the calls made
  on the child are \<^verbatim>\<open>Popen\<close> and the failed write only. Neither \<^verbatim>\<open>terminate\<close> nor
  \<^verbatim>\<open>kill\<close> is ever called, although the child is still running.
\<close>

theorem write_failure_leaves_child_running:
  "run_mcphost_basic broken_pipe_env self fuel ''hello'' start_frame =
     Some (Inr ''Error running MCPHost: [Errno 32] Broken pipe'',
       \<lparr>trace = [Popen (command self), StdinWrite ''hello\<newline>''],
        all_output = [], stderr_output = []\<rparr>)
   \<and> Terminate \<notin> set (trace (snd (the
         (run_mcphost_basic broken_pipe_env self fuel ''hello'' start_frame))))
   \<and> Kill \<notin> set (trace (snd (the
         (run_mcphost_basic broken_pipe_env self fuel ''hello'' start_frame))))"
  by (simp add: run_mcphost_basic_def run_basic_def io_defs broken_pipe_env_def quiet_env_def
      start_frame_def)



text \<open>
  C7, as the code has it. On a platform other than Windows, a round of the polling loop
  polls the child first and leaves the loop with nothing read when it has exited;
  otherwise it waits up to 1 second for stdout (\<^verbatim>\<open>select\<close>) and reads a line when it is
  readable, then does the same for stderr, and appends each line read to its
  accumulator. The calls of a round are always one of six sequences in that order. No
  data within the two waits is no error: the accumulators stay and the loop goes on.
  The wait for stderr is the same 1 second in \<^verbatim>\<open>mcphost_runner.py\<close>; it is shorter, 0.1
  seconds, only in the copy of the function in \<^verbatim>\<open>test.py\<close>.
\<close>

theorem polling_round:
  "(poll_result w (trace s) = Inr (Some rc) \<longrightarrow>
      loop_body w v s = Some (Inr False, s\<lparr>trace := trace s @ [Poll]\<rparr>))
   \<and> (\<not> win32 w \<and> poll_result w (trace s) = Inr None
        \<and> select_ready w (trace s @ [Poll]) Stdout = Inr False
        \<and> select_ready w (trace s @ [Poll, Select Stdout 1]) Stderr = Inr False \<longrightarrow>
      loop_body w v s =
        Some (Inr True, s\<lparr>trace := trace s @ [Poll, Select Stdout 1, Select Stderr v]\<rparr>))
   \<and> (\<not> win32 w \<and> poll_result w (trace s) = Inr None
        \<and> select_ready w (trace s @ [Poll]) Stdout = Inr True
        \<and> readline_result w (trace s @ [Poll, Select Stdout 1]) Stdout = Inr l1
        \<and> select_ready w (trace s @ [Poll, Select Stdout 1, Readline Stdout]) Stderr = Inr True
        \<and> readline_result w
             (trace s @ [Poll, Select Stdout 1, Readline Stdout, Select Stderr v]) Stderr = Inr l2
        \<longrightarrow>
      loop_body w v s = Some (Inr True,
        \<lparr>trace = trace s
                  @ [Poll, Select Stdout 1, Readline Stdout, Select Stderr v, Readline Stderr],
         all_output = all_output s @ l1, stderr_output = stderr_output s @ l2\<rparr>))
   \<and> (\<not> win32 w \<and> loop_body w v s = Some (r, s') \<longrightarrow>
        (\<exists>t \<in> {[Poll], [Poll, Select Stdout 1], [Poll, Select Stdout 1, Select Stderr v],
                 [Poll, Select Stdout 1, Select Stderr v, Readline Stderr],
                 [Poll, Select Stdout 1, Readline Stdout, Select Stderr v],
                 [Poll, Select Stdout 1, Readline Stdout, Select Stderr v, Readline Stderr]}.
           trace s' = trace s @ t))
   \<and> run_mcphost_basic = run_basic 1
   \<and> test_run_mcphost_basic = run_basic (1 / 10) \<and> (1 / 10 :: real) < 1"
proof -
  have a: "poll_result w (trace s) = Inr (Some rc) \<longrightarrow>
      loop_body w v s = Some (Inr False, s\<lparr>trace := trace s @ [Poll]\<rparr>)"
    using loop_body_exit by blast
  have b: "\<not> win32 w \<and> poll_result w (trace s) = Inr None
        \<and> select_ready w (trace s @ [Poll]) Stdout = Inr False
        \<and> select_ready w (trace s @ [Poll, Select Stdout 1]) Stderr = Inr False \<longrightarrow>
      loop_body w v s =
        Some (Inr True, s\<lparr>trace := trace s @ [Poll, Select Stdout 1, Select Stderr v]\<rparr>)"
    using loop_body_no_data by blast
  have c: "\<not> win32 w \<and> poll_result w (trace s) = Inr None
        \<and> select_ready w (trace s @ [Poll]) Stdout = Inr True
        \<and> readline_result w (trace s @ [Poll, Select Stdout 1]) Stdout = Inr l1
        \<and> select_ready w (trace s @ [Poll, Select Stdout 1, Readline Stdout]) Stderr = Inr True
        \<and> readline_result w
             (trace s @ [Poll, Select Stdout 1, Readline Stdout, Select Stderr v]) Stderr = Inr l2
        \<longrightarrow>
      loop_body w v s = Some (Inr True,
        \<lparr>trace = trace s
                  @ [Poll, Select Stdout 1, Readline Stdout, Select Stderr v, Readline Stderr],
         all_output = all_output s @ l1, stderr_output = stderr_output s @ l2\<rparr>)"
    using loop_body_data by blast
  have d: "\<not> win32 w \<and> loop_body w v s = Some (r, s') \<longrightarrow>
        (\<exists>t \<in> {[Poll], [Poll, Select Stdout 1], [Poll, Select Stdout 1, Select Stderr v],
                 [Poll, Select Stdout 1, Select Stderr v, Readline Stderr],
                 [Poll, Select Stdout 1, Readline Stdout, Select Stderr v],
                 [Poll, Select Stdout 1, Readline Stdout, Select Stderr v, Readline Stderr]}.
           trace s' = trace s @ t)"
    using loop_body_order by blast
  have e: "run_mcphost_basic = run_basic 1" by (simp add: run_mcphost_basic_def)
  have f: "test_run_mcphost_basic = run_basic (1 / 10)" by (simp add: test_run_mcphost_basic_def)
  have g: "(1 / 10 :: real) < 1" by simp
  from a b c d e f g show ?thesis by blast
qed

theorem polling_round_witness:
  "loop_body quiet_env 1 start_frame =
     Some (Inr True, start_frame\<lparr>trace := [Poll, Select Stdout 1, Select Stderr 1]\<rparr>)"
  using polling_round [where w = quiet_env and v = 1 and s = start_frame]
  by (simp add: quiet_env_def start_frame_def)

text \<open>
  C7 as stated fails in \<^verbatim>\<open>mcphost_runner.py\<close>: with a child that stays silent, the one
  round made before the deadline waits 1 second for stdout and 1 second for stderr, which
  is not shorter.
\<close>

theorem stderr_wait_equals_stdout_wait:
  "run_mcphost_basic quiet_env (default_runner\<lparr>response_timeout := 2\<rparr>) 2 ''hi'' start_frame =
     Some (Inr ''STDOUT:\<newline>\<newline>\<newline>STDERR:\<newline>'',
       \<lparr>trace = [Popen [''mcphost'', ''-m'', ''ollama:qwen3:8b'', ''--config'',
                         ''/home/nihal/config.json''],
          StdinWrite ''hi\<newline>'', StdinFlush, TimeTime,
          TimeTime, Poll, Select Stdout 1, Select Stderr 1,
          TimeTime,
          StdinWrite ''quit\<newline>'', StdinFlush, Sleep (1 / 2), Terminate, Wait 2],
        all_output = [], stderr_output = []\<rparr>)
   \<and> \<not> ((1::real) < 1)"
  by (simp add: run_mcphost_basic_def run_basic_def io_defs quiet_env_def loop_body_def
      read_line_with_timeout_def numeral_2_eq_2
      default_runner_def command_def start_frame_def)

text \<open>
  C10. The output of \<^verbatim>\<open>clean_text_for_speech\<close> has at most 542 characters: when the
  text after the removal of formatting and the replacement of the acronyms has more than
  500 characters, the result is its first 500 characters followed by the notice of 42
  characters.
\<close>

theorem clean_text_for_speech_length:
  "length (clean_text_for_speech s) \<le> 542
   \<and> (length (replace_terms replacements (sub_links (remove_formatting s))) > 500 \<longrightarrow>
        clean_text_for_speech s =
          take 500 (replace_terms replacements (sub_links (remove_formatting s)))
          @ ''... The response was truncated for speech.'')
   \<and> length ''... The response was truncated for speech.'' = 42"
  by (simp add: clean_text_for_speech_def limit_length_def truncation_notice_def)

theorem clean_text_for_speech_length_witness:
  "length (clean_text_for_speech (replicate 600 (CHR ''a''))) \<le> 542
   \<and> clean_text_for_speech (replicate 600 (CHR ''a'')) =
       replicate 500 (CHR ''a'') @ ''... The response was truncated for speech.''"
proof -
  have "replace_terms replacements (sub_links (remove_formatting (replicate 600 (CHR ''a''))))
      = replicate 600 (CHR ''a'')"
    by (rule clean_text_for_speech_plain) simp
  with clean_text_for_speech_length [of "replicate 600 (CHR ''a'')"] show ?thesis by simp
qed

text \<open>
  C1, as the code has it. Neither stage is idempotent on every input. Applied to its
  own output, \<^verbatim>\<open>clean_mcphost_response\<close> returns that output when it contains none of the
  denylisted substrings and the empty string when it contains one; so the second
  application changes nothing exactly when the first output contains no denylisted
  substring. Applied to its own output, \<^verbatim>\<open>clean_text_for_speech\<close> returns that output
  exactly when the link pattern matches nowhere in it.
\<close>

theorem sanitizer_applied_twice:
  "clean_mcphost_response (Some (clean_mcphost_response response)) =
     (if has_skip_pattern (clean_mcphost_response response) then []
      else clean_mcphost_response response)
   \<and> (clean_mcphost_response (Some (clean_mcphost_response response))
          = clean_mcphost_response response
        \<longleftrightarrow> \<not> has_skip_pattern (clean_mcphost_response response))
   \<and> (clean_text_for_speech (clean_text_for_speech s) = clean_text_for_speech s
        \<longleftrightarrow> \<not> has_link (clean_text_for_speech s))"
proof -
  have a: "clean_mcphost_response (Some (clean_mcphost_response response)) =
     (if has_skip_pattern (clean_mcphost_response response) then []
      else clean_mcphost_response response)"
    by (rule clean_mcphost_response_twice)
  have b: "clean_mcphost_response (Some (clean_mcphost_response response))
          = clean_mcphost_response response
        \<longleftrightarrow> \<not> has_skip_pattern (clean_mcphost_response response)"
  proof (cases "has_skip_pattern (clean_mcphost_response response)")
    case True
    then have "clean_mcphost_response response \<noteq> []" using has_skip_pattern_Nil by auto
    with True a show ?thesis by auto
  next
    case False
    with a show ?thesis by simp
  qed
  have c: "clean_text_for_speech (clean_text_for_speech s) = clean_text_for_speech s
        \<longleftrightarrow> \<not> has_link (clean_text_for_speech s)"
    by (rule clean_text_for_speech_twice)
  from a b c show ?thesis by blast
qed

text \<open>
  C1 as stated fails for both stages. The removal of the tag in \<^verbatim>\<open>DE<x>BUG\<close> leaves
  \<^verbatim>\<open>DEBUG\<close>, a line that the second application drops. The first application to the
  nested link \<^verbatim>\<open>[[a](b)](c)\<close> leaves the link \<^verbatim>\<open>[a](c)\<close>, which the second turns
  into \<^verbatim>\<open>a\<close>.
\<close>

theorem sanitizer_not_idempotent:
  "clean_mcphost_response (Some (clean_mcphost_response (Some ''DE<x>BUG'')))
     \<noteq> clean_mcphost_response (Some ''DE<x>BUG'')
   \<and> clean_text_for_speech (clean_text_for_speech ''[[a](b)](c)'')
     \<noteq> clean_text_for_speech ''[[a](b)](c)''"
proof -
  have a: "clean_mcphost_response (Some ''DE<x>BUG'') = ''DEBUG''" by code_simp
  have b: "clean_mcphost_response (Some ''DEBUG'') = []" by code_simp
  have c: "clean_text_for_speech ''[[a](b)](c)'' = ''[a](c)''" by code_simp
  have d: "clean_text_for_speech ''[a](c)'' = ''a''" by code_simp
  show ?thesis unfolding a b c d by simp
qed

end
